theory Spec2Isabelle
  imports Main "HOL-Library.AList"
begin

section \<open>Bytes, runes and the library primitives the parser calls\<close>

text \<open>
  A Go \<^verbatim>\<open>[]byte\<close> and a Go \<^verbatim>\<open>string\<close> are both byte sequences: \<open>char list\<close>,
  one \<open>char\<close> per byte. A \<^verbatim>\<open>rune\<close> is a code point: a \<open>nat\<close>. The functions of
  this section are those of Go's \<^verbatim>\<open>unicode/utf8\<close>, \<^verbatim>\<open>unicode\<close>, \<^verbatim>\<open>bytes\<close> and
  \<^verbatim>\<open>strings\<close> packages that \<^verbatim>\<open>pkg/dotenv\<close> calls, written out as the library
  computes them.
\<close>

type_synonym bytes = "char list"
type_synonym rune = nat

definition RuneError :: rune where
  "RuneError = 0xFFFD"

definition RuneSelf :: nat where
  "RuneSelf = 0x80"

definition UTFMax :: nat where
  "UTFMax = 4"

text \<open>
  The table \<^verbatim>\<open>first\<close> of \<^verbatim>\<open>unicode/utf8\<close>, for a leading byte that is not ASCII:
  the length of the sequence and the range accepted for its second byte; \<open>None\<close> for
  a byte that cannot start a sequence.
\<close>

definition first :: "nat \<Rightarrow> (nat \<times> nat \<times> nat) option" where
  "first p0 =
     (if 0xC2 \<le> p0 \<and> p0 \<le> 0xDF then Some (2, 0x80, 0xBF)
      else if p0 = 0xE0 then Some (3, 0xA0, 0xBF)
      else if 0xE1 \<le> p0 \<and> p0 \<le> 0xEC then Some (3, 0x80, 0xBF)
      else if p0 = 0xED then Some (3, 0x80, 0x9F)
      else if 0xEE \<le> p0 \<and> p0 \<le> 0xEF then Some (3, 0x80, 0xBF)
      else if p0 = 0xF0 then Some (4, 0x90, 0xBF)
      else if 0xF1 \<le> p0 \<and> p0 \<le> 0xF3 then Some (4, 0x80, 0xBF)
      else if p0 = 0xF4 then Some (4, 0x80, 0x8F)
      else None)"

text \<open>
  \<^verbatim>\<open>utf8.DecodeRune\<close>: the first rune of \<open>p\<close> and its width in bytes. An invalid
  or truncated sequence is \<open>(RuneError, 1)\<close>, the empty input \<open>(RuneError, 0)\<close>.
\<close>

fun DecodeRune :: "bytes \<Rightarrow> rune \<times> nat" where
  "DecodeRune [] = (RuneError, 0)"
| "DecodeRune (c0 # p) =
     (let p0 = (of_char c0 :: nat) in
      if p0 < RuneSelf then (p0, 1)
      else case first p0 of
        None \<Rightarrow> (RuneError, 1)
      | Some (sz, lo, hi) \<Rightarrow>
          if Suc (length p) < sz then (RuneError, 1)
          else let b1 = (of_char (p ! 0) :: nat) in
            if b1 < lo \<or> hi < b1 then (RuneError, 1)
            else if sz \<le> 2 then (p0 mod 32 * 64 + b1 mod 64, 2)
            else let b2 = (of_char (p ! 1) :: nat) in
              if b2 < 0x80 \<or> 0xBF < b2 then (RuneError, 1)
              else if sz \<le> 3 then (p0 mod 16 * 4096 + b1 mod 64 * 64 + b2 mod 64, 3)
              else let b3 = (of_char (p ! 2) :: nat) in
                if b3 < 0x80 \<or> 0xBF < b3 then (RuneError, 1)
                else (p0 mod 8 * 262144 + b1 mod 64 * 4096 + b2 mod 64 * 64 + b3 mod 64, 4))"

definition RuneStart :: "char \<Rightarrow> bool" where
  "RuneStart b = (\<not> (0x80 \<le> (of_char b :: nat) \<and> (of_char b :: nat) < 0xC0))"

text \<open>
  The backward scan of \<^verbatim>\<open>utf8.DecodeLastRune\<close>
  (\<^verbatim>\<open>for start--; start >= lim; start-- { if RuneStart(p[start]) { break } }\<close>):
  the third argument is \<open>start + 1\<close>, the result is \<open>start\<close> when the loop is left,
  \<open>- 1\<close> included.
\<close>

fun backscan :: "bytes \<Rightarrow> nat \<Rightarrow> nat \<Rightarrow> int" where
  "backscan p lim 0 = - 1"
| "backscan p lim (Suc s) =
     (if s < lim then int s
      else if RuneStart (p ! s) then int s
      else backscan p lim s)"

definition DecodeLastRune :: "bytes \<Rightarrow> rune \<times> nat" where
  "DecodeLastRune p =
     (let end = length p in
      if end = 0 then (RuneError, 0)
      else let r = (of_char (p ! (end - 1)) :: nat) in
        if r < RuneSelf then (r, 1)
        else let lim = end - UTFMax;
                 start = nat (max 0 (backscan p lim (end - 1)));
                 (r', size) = DecodeRune (drop start p)
             in if start + size \<noteq> end then (RuneError, 1) else (r', size))"

text \<open>
  \<^verbatim>\<open>utf8.AppendRune\<close>, which \<^verbatim>\<open>string([]rune)\<close> applies to every rune: a surrogate or
  a value beyond U+10FFFF is written as U+FFFD.
\<close>

definition EncodeRune :: "rune \<Rightarrow> bytes" where
  "EncodeRune r =
     (if r \<le> 0x7F then [char_of r]
      else if r \<le> 0x7FF then [char_of (0xC0 + r div 64), char_of (0x80 + r mod 64)]
      else if 0x10FFFF < r \<or> (0xD800 \<le> r \<and> r \<le> 0xDFFF) then [CHR 0xEF, CHR 0xBF, CHR 0xBD]
      else if r \<le> 0xFFFF then
        [char_of (0xE0 + r div 4096), char_of (0x80 + r div 64 mod 64), char_of (0x80 + r mod 64)]
      else
        [char_of (0xF0 + r div 262144), char_of (0x80 + r div 4096 mod 64),
         char_of (0x80 + r div 64 mod 64), char_of (0x80 + r mod 64)])"

lemma first_size: "first p0 = Some (sz, lo, hi) \<Longrightarrow> 2 \<le> sz \<and> sz \<le> 4"
  by (auto simp: first_def split: if_splits)

lemma DecodeRune_width_pos: "p \<noteq> [] \<Longrightarrow> 0 < snd (DecodeRune p)"
  by (cases p) (auto simp: Let_def split: option.splits prod.splits)

lemma DecodeRune_width_le: "snd (DecodeRune p) \<le> length p"
proof (cases p)
  case Nil
  then show ?thesis by simp
next
  case (Cons c0 q)
  show ?thesis
  proof (cases "first (of_char c0)")
    case None
    with Cons show ?thesis by (simp add: Let_def)
  next
    case (Some t)
    obtain sz lo hi where t: "t = (sz, lo, hi)"
      by (cases t)
    from Some t have "sz = 2 \<or> sz = 3 \<or> sz = 4"
      using first_size [of "of_char c0" sz lo hi] by auto
    then show ?thesis
    proof (elim disjE)
      assume "sz = 2"
      with Cons Some t show ?thesis by (cases q) (auto simp: Let_def)
    next
      assume "sz = 3"
      with Cons Some t show ?thesis by (auto simp: Let_def)
    next
      assume "sz = 4"
      with Cons Some t show ?thesis by (auto simp: Let_def)
    qed
  qed
qed

lemma DecodeLastRune_width_pos: "p \<noteq> [] \<Longrightarrow> 0 < snd (DecodeLastRune p)"
proof -
  assume ne: "p \<noteq> []"
  define start where "start = nat (max 0 (backscan p (length p - UTFMax) (length p - 1)))"
  show ?thesis
  proof (cases "start + snd (DecodeRune (drop start p)) = length p")
    case True
    have "backscan p lim n < int n" for lim n
      by (induction n) auto
    from this [of "length p - UTFMax" "length p - 1"] ne
    have "start < length p"
      by (cases p) (auto simp: start_def)
    with True have "0 < snd (DecodeRune (drop start p))"
      by simp
    with True show ?thesis
      using ne by (auto simp: DecodeLastRune_def Let_def start_def split: prod.splits)
  next
    case False
    then show ?thesis
      using ne by (auto simp: DecodeLastRune_def Let_def start_def split: prod.splits)
  qed
qed

lemma DecodeLastRune_width_le: "snd (DecodeLastRune p) \<le> length p"
  by (cases "p = []")
     (auto simp: DecodeLastRune_def Let_def Suc_leI split: prod.splits)

lemma DecodeRune_ascii: "(of_char c :: nat) < 0x80 \<Longrightarrow> DecodeRune (c # cs) = (of_char c, 1)"
  by (simp add: RuneSelf_def)

declare DecodeRune.simps(2) [simp del]

subsection \<open>Searching and trimming by a predicate on runes\<close>

text \<open>
  \<^verbatim>\<open>indexFunc(s, f, truth)\<close> of \<^verbatim>\<open>bytes\<close> and \<^verbatim>\<open>strings\<close>: the byte index of the first
  rune \<open>r\<close> of \<open>s\<close> with \<open>f r = truth\<close>; \<open>None\<close> is the \<open>-1\<close> of the library.
  The library advances an index; here the recursion is on the remaining bytes and
  the widths passed are added up.
\<close>

function indexFunc :: "(rune \<Rightarrow> bool) \<Rightarrow> bool \<Rightarrow> bytes \<Rightarrow> nat option" where
  "indexFunc f truth [] = None"
| "indexFunc f truth (c # cs) =
     (let (r, wid) = DecodeRune (c # cs) in
      if f r = truth then Some 0
      else map_option (\<lambda>i. wid + i) (indexFunc f truth (drop wid (c # cs))))"
  by pat_completeness auto
termination
proof (relation "measure (\<lambda>(f, truth, s). length s)")
  fix f :: "rune \<Rightarrow> bool" and truth :: bool and c cs x r wid
  assume "x = DecodeRune (c # cs)" and "(r, wid) = x"
  then have "wid = snd (DecodeRune (c # cs))"
    by (metis snd_conv)
  then have "0 < wid"
    using DecodeRune_width_pos [of "c # cs"] by simp
  then show "((f, truth, drop wid (c # cs)), (f, truth, c # cs)) \<in> measure (\<lambda>(f, truth, s). length s)"
    by simp
qed simp

text \<open>
  \<^verbatim>\<open>lastIndexFunc(s, f, truth)\<close>: the byte index of the last rune with
  \<open>f r = truth\<close>, decoding backwards with \<^verbatim>\<open>DecodeLastRune\<close>. The loop variable
  \<open>i\<close> of the library is the length of the prefix still to be examined.
\<close>

function lastIndexFunc :: "(rune \<Rightarrow> bool) \<Rightarrow> bool \<Rightarrow> bytes \<Rightarrow> nat option" where
  "lastIndexFunc f truth s =
     (if s = [] then None
      else let (r, size) = DecodeLastRune s; i = length s - size in
        if f r = truth then Some i
        else lastIndexFunc f truth (take i s))"
  by pat_completeness auto
termination
proof (relation "measure (\<lambda>(f, truth, s). length s)")
  fix f :: "rune \<Rightarrow> bool" and truth :: bool and s x r size i
  assume "s \<noteq> []" and "x = DecodeLastRune s" and "(r, size) = x" and "i = length s - size"
  then have "size = snd (DecodeLastRune s)"
    by (metis snd_conv)
  then have "0 < size"
    using DecodeLastRune_width_pos [of s] \<open>s \<noteq> []\<close> by simp
  then show "((f, truth, take i s), (f, truth, s)) \<in> measure (\<lambda>(f, truth, s). length s)"
    using \<open>s \<noteq> []\<close> \<open>i = length s - size\<close> by simp
qed simp

declare lastIndexFunc.simps [simp del]

definition IndexFunc :: "(rune \<Rightarrow> bool) \<Rightarrow> bytes \<Rightarrow> nat option" where
  "IndexFunc f s = indexFunc f True s"

definition TrimLeftFunc :: "(rune \<Rightarrow> bool) \<Rightarrow> bytes \<Rightarrow> bytes" where
  "TrimLeftFunc f s = (case indexFunc f False s of None \<Rightarrow> [] | Some i \<Rightarrow> drop i s)"

definition TrimRightFunc :: "(rune \<Rightarrow> bool) \<Rightarrow> bytes \<Rightarrow> bytes" where
  "TrimRightFunc f s =
     (case lastIndexFunc f False s of
        None \<Rightarrow> []
      | Some i \<Rightarrow>
          if RuneSelf \<le> (of_char (s ! i) :: nat) then take (i + snd (DecodeRune (drop i s))) s
          else take (Suc i) s)"

definition TrimFunc :: "(rune \<Rightarrow> bool) \<Rightarrow> bytes \<Rightarrow> bytes" where
  "TrimFunc f s = TrimRightFunc f (TrimLeftFunc f s)"

definition HasPrefix :: "bytes \<Rightarrow> bytes \<Rightarrow> bool" where
  "HasPrefix s pre = (length pre \<le> length s \<and> take (length pre) s = pre)"

definition TrimPrefix :: "bytes \<Rightarrow> bytes \<Rightarrow> bytes" where
  "TrimPrefix s pre = (if HasPrefix s pre then drop (length pre) s else s)"

text \<open>
  The conversions \<^verbatim>\<open>[]rune(string(b))\<close> and \<^verbatim>\<open>string(rs)\<close>: every invalid byte
  becomes one U+FFFD, which is written back as three bytes.
\<close>

function runes_of :: "bytes \<Rightarrow> rune list" where
  "runes_of [] = []"
| "runes_of (c # cs) = (let (r, wid) = DecodeRune (c # cs) in r # runes_of (drop wid (c # cs)))"
  by pat_completeness auto
termination
proof (relation "measure length")
  fix c cs x r wid
  assume "x = DecodeRune (c # cs)" and "(r, wid) = x"
  then have "wid = snd (DecodeRune (c # cs))"
    by (metis snd_conv)
  then have "0 < wid"
    using DecodeRune_width_pos [of "c # cs"] by simp
  then show "(drop wid (c # cs), c # cs) \<in> measure length"
    by simp
qed simp

definition string_of_runes :: "rune list \<Rightarrow> bytes" where
  "string_of_runes rs = concat (map EncodeRune rs)"

subsection \<open>Character classes\<close>

text \<open>
  \<^verbatim>\<open>unicode.IsSpace\<close>: in Latin-1 the eight code points of the \<^verbatim>\<open>switch\<close>, beyond it
  the table \<^verbatim>\<open>White_Space\<close>.
\<close>

definition unicode_IsSpace :: "rune \<Rightarrow> bool" where
  "unicode_IsSpace r =
     (if r \<le> 0xFF then
        r = 0x09 \<or> r = 0x0A \<or> r = 0x0B \<or> r = 0x0C \<or> r = 0x0D \<or> r = 0x20 \<or> r = 0x85 \<or> r = 0xA0
      else
        r = 0x1680 \<or> (0x2000 \<le> r \<and> r \<le> 0x200A) \<or> r = 0x2028 \<or> r = 0x2029 \<or>
        r = 0x202F \<or> r = 0x205F \<or> r = 0x3000)"

text \<open>
  \<^verbatim>\<open>unicode.IsLetter\<close> and \<^verbatim>\<open>unicode.IsNumber\<close> on Latin-1, where the library reads
  the table \<^verbatim>\<open>properties\<close>. The key lexer calls them on \<^verbatim>\<open>rune(char)\<close> for a byte
  \<^verbatim>\<open>char\<close> only, so no larger code point reaches them, and the tables for the rest of
  Unicode are left out.
\<close>

definition unicode_IsLetter :: "rune \<Rightarrow> bool" where
  "unicode_IsLetter r =
     ((0x41 \<le> r \<and> r \<le> 0x5A) \<or> (0x61 \<le> r \<and> r \<le> 0x7A) \<or>
      r = 0xAA \<or> r = 0xB5 \<or> r = 0xBA \<or>
      (0xC0 \<le> r \<and> r \<le> 0xD6) \<or> (0xD8 \<le> r \<and> r \<le> 0xF6) \<or> (0xF8 \<le> r \<and> r \<le> 0xFF))"

definition unicode_IsNumber :: "rune \<Rightarrow> bool" where
  "unicode_IsNumber r =
     ((0x30 \<le> r \<and> r \<le> 0x39) \<or> r = 0xB2 \<or> r = 0xB3 \<or> r = 0xB9 \<or>
      (0xBC \<le> r \<and> r \<le> 0xBE))"

section \<open>Package dotenv: constants and character predicates\<close>

definition charComment :: char where
  "charComment = CHR ''#''"

definition prefixSingleQuote :: char where
  "prefixSingleQuote = CHR 0x27"

definition prefixDoubleQuote :: char where
  "prefixDoubleQuote = CHR 0x22"

definition backslash :: char where
  "backslash = CHR 0x5C"

definition exportPrefix :: bytes where
  "exportPrefix = ''export''"

definition EnvKey :: bytes where
  "EnvKey = ''APP_ENV''"

definition DefaultEnv :: bytes where
  "DefaultEnv = ''dev''"

definition isSpace :: "rune \<Rightarrow> bool" where
  "isSpace r = (r = 0x09 \<or> r = 0x0B \<or> r = 0x0C \<or> r = 0x0D \<or> r = 0x20 \<or> r = 0x85 \<or> r = 0xA0)"

definition isCharFunc :: "rune \<Rightarrow> rune \<Rightarrow> bool" where
  "isCharFunc char = (\<lambda>v. v = char)"

definition isLineEnd :: "rune \<Rightarrow> bool" where
  "isLineEnd r = (r = 0x0A \<or> r = 0x0D)"

definition hasQuotePrefix :: "bytes \<Rightarrow> char \<times> bool" where
  "hasQuotePrefix src =
     (if 0 < length src \<and> (hd src = prefixDoubleQuote \<or> hd src = prefixSingleQuote)
      then (hd src, True) else (CHR 0x00, False))"

definition indexOfNonSpaceChar :: "bytes \<Rightarrow> nat option" where
  "indexOfNonSpaceChar src = IndexFunc (\<lambda>r. \<not> unicode_IsSpace r) src"

section \<open>The scanner\<close>

lemma indexFunc_less: "indexFunc f truth s = Some i \<Longrightarrow> i < length s"
proof (induction f truth s arbitrary: i rule: indexFunc.induct)
  case (1 f truth)
  then show ?case by simp
next
  case (2 f truth c cs)
  obtain r wid where d: "DecodeRune (c # cs) = (r, wid)"
    by (cases "DecodeRune (c # cs)")
  show ?case
  proof (cases "f r = truth")
    case True
    with 2 d show ?thesis by simp
  next
    case False
    with "2.prems" d obtain j where j: "indexFunc f truth (drop wid (c # cs)) = Some j" "i = wid + j"
      by auto
    from "2.IH" [OF d [symmetric] refl False j(1)] have "j < length (drop wid (c # cs))" .
    with j(2) show ?thesis by simp
  qed
qed

lemma indexFunc_zero: "indexFunc f truth s = Some 0 \<Longrightarrow> f (fst (DecodeRune s)) = truth"
proof (cases s)
  case Nil
  assume "indexFunc f truth s = Some 0"
  with Nil show ?thesis by simp
next
  case (Cons c cs)
  assume a: "indexFunc f truth s = Some 0"
  obtain r wid where d: "DecodeRune (c # cs) = (r, wid)"
    by (cases "DecodeRune (c # cs)")
  have "0 < wid"
    using DecodeRune_width_pos [of "c # cs"] d by simp
  with a Cons d show ?thesis
    by (auto split: if_splits)
qed

text \<open>
  \<^verbatim>\<open>getStatementStart\<close>: \<open>None\<close> is the \<^verbatim>\<open>nil\<close> the source returns. A slice
  that is returned is never empty, so \<^verbatim>\<open>nil\<close> and the empty slice need not be
  told apart anywhere else.
\<close>

function getStatementStart :: "bytes \<Rightarrow> bytes option" where
  "getStatementStart src =
     (case indexOfNonSpaceChar src of
        None \<Rightarrow> None
      | Some pos \<Rightarrow>
          let src' = drop pos src in
          if src' ! 0 \<noteq> charComment then Some src'
          else case IndexFunc (isCharFunc 0x0A) src' of
            None \<Rightarrow> None
          | Some pos' \<Rightarrow> getStatementStart (drop pos' src'))"
  by pat_completeness auto
termination
proof (relation "measure length")
  fix src pos src' pos'
  assume p: "indexOfNonSpaceChar src = Some pos" and s: "src' = drop pos src"
    and c: "\<not> src' ! 0 \<noteq> charComment" and n: "IndexFunc (isCharFunc 0x0A) src' = Some pos'"
  from p have "pos < length src"
    by (simp add: indexOfNonSpaceChar_def IndexFunc_def indexFunc_less)
  with s have "src' \<noteq> []"
    by simp
  then obtain c0 cs where "src' = c0 # cs"
    by (cases src') auto
  with c have cs: "src' = charComment # cs"
    by simp
  have "pos' \<noteq> 0"
  proof
    assume "pos' = 0"
    with n have "isCharFunc 0x0A (fst (DecodeRune src'))"
      using indexFunc_zero [of "isCharFunc 0x0A" True src'] by (simp add: IndexFunc_def)
    with cs show False
      by (simp add: isCharFunc_def charComment_def DecodeRune_ascii)
  qed
  with \<open>pos < length src\<close> s show "(drop pos' src', src) \<in> measure length"
    by simp
qed simp

declare getStatementStart.simps [simp del]

section \<open>The key lexer\<close>

text \<open>
  The errors the package returns. \<open>UnexpectedCharacter c src\<close> is
  \<^verbatim>\<open>unexpected character %q in variable name near %q\<close>, \<open>UnterminatedQuotedValue s\<close> is
  \<^verbatim>\<open>unterminated quoted value %s\<close>, \<open>FileError\<close> is what \<^verbatim>\<open>os.Open\<close> or
  \<^verbatim>\<open>io.Copy\<close> returned.
\<close>

datatype error =
    ZeroLengthString
  | UnexpectedCharacter char bytes
  | UnterminatedQuotedValue bytes
  | FileError bytes

text \<open>
  The loop \<^verbatim>\<open>for i, char := range src\<close> of \<^verbatim>\<open>locateKeyName\<close>, over the bytes from
  index \<open>i\<close> on. It yields \<open>(key, offset)\<close> as the loop leaves them: at a separator
  \<open>(src[0:i], i + 1)\<close>, at the end of the bytes their initial values, the empty key
  and \<open>0\<close>.
\<close>

fun keyLoop :: "bytes \<Rightarrow> bytes \<Rightarrow> nat \<Rightarrow> error + (bytes \<times> nat)" where
  "keyLoop src [] i = Inr ([], 0)"
| "keyLoop src (char # rest) i =
     (let rchar = (of_char char :: rune) in
      if isSpace rchar then keyLoop src rest (Suc i)
      else if char = CHR ''='' \<or> char = CHR '':'' then Inr (take i src, Suc i)
      else if char = CHR ''_'' then keyLoop src rest (Suc i)
      else if unicode_IsLetter rchar \<or> unicode_IsNumber rchar \<or> char = CHR ''.''
        then keyLoop src rest (Suc i)
      else Inl (UnexpectedCharacter char src))"

definition locateKeyName :: "bytes \<Rightarrow> error + (bytes \<times> bytes)" where
  "locateKeyName src0 =
     (let src1 = TrimLeftFunc isSpace src0;
          src =
            (if HasPrefix src1 exportPrefix then
               let trimmed = TrimPrefix src1 exportPrefix in
               if IndexFunc isSpace trimmed = Some 0 then TrimLeftFunc isSpace trimmed else src1
             else src1)
      in case keyLoop src src 0 of
           Inl err \<Rightarrow> Inl err
         | Inr (key, offset) \<Rightarrow>
             if length src = 0 then Inl ZeroLengthString
             else Inr (TrimRightFunc unicode_IsSpace key, TrimLeftFunc isSpace (drop offset src)))"

section \<open>Escape decoding and variable expansion\<close>

text \<open>
  A Go \<^verbatim>\<open>map[string]string\<close> is an association list with one entry per key
  (\<^const>\<open>AList.update\<close> stores). Reading a key that is absent gives the empty string.
\<close>

type_synonym gomap = "(bytes \<times> bytes) list"

definition index :: "gomap \<Rightarrow> bytes \<Rightarrow> bytes" where
  "index m k = (case map_of m k of None \<Rightarrow> [] | Some v \<Rightarrow> v)"

text \<open>
  The three regular expressions are matched by hand-written scanners over bytes. All
  three patterns begin with an ASCII byte and a match is never empty, so the leftmost
  match is found by trying each byte position in turn. Where a pattern ends in a dot
  or in a negated class the engine consumes a whole rune and the scanner one byte; the
  bytes that follow inside that rune are not ASCII, start no match and are copied as
  they are, as the engine copies them.

  \<^verbatim>\<open>escapeRegex.ReplaceAllStringFunc\<close> with the callback of \<^verbatim>\<open>expandEscapes\<close>: the
  pattern matches a backslash and any rune but a newline.
\<close>

fun replaceEscapes :: "bytes \<Rightarrow> bytes" where
  "replaceEscapes (b # d # rest) =
     (if b = backslash \<and> d \<noteq> CHR 0x0A then
        (let match = [b, d]; c = TrimPrefix match [backslash] in
         if c = ''n'' then [CHR 0x0A]
         else if c = ''r'' then [CHR 0x0D]
         else match) @ replaceEscapes rest
      else b # replaceEscapes (d # rest))"
| "replaceEscapes [b] = [b]"
| "replaceEscapes [] = []"

text \<open>
  \<^verbatim>\<open>unescapeCharsRegex.ReplaceAllString(out, "$1")\<close>: the pattern matches a backslash
  and any rune but the dollar sign (a newline too), and only the rune is kept.
\<close>

fun unescapeChars :: "bytes \<Rightarrow> bytes" where
  "unescapeChars (b # d # rest) =
     (if b = backslash \<and> d \<noteq> CHR ''$'' then d # unescapeChars rest
      else b # unescapeChars (d # rest))"
| "unescapeChars [b] = [b]"
| "unescapeChars [] = []"

definition expandEscapes :: "bytes \<Rightarrow> bytes" where
  "expandEscapes str = unescapeChars (replaceEscapes str)"

text \<open>
  \<^verbatim>\<open>expandVarRegex\<close> matched at the head of \<open>s\<close>: an optional backslash (group 1),
  the dollar sign (group 2), an optional opening parenthesis (group 3), an optional
  opening brace, an optional run of \<^verbatim>\<open>[A-Z0-9_]\<close> (group 4), an optional closing
  brace. The result is the list \<^verbatim>\<open>submatch\<close> (the match and its four groups, an
  unmatched group empty) and the bytes after the match. After the dollar sign every
  part is optional and greedy, so nothing is ever given back.
\<close>

definition isNameChar :: "char \<Rightarrow> bool" where
  "isNameChar c =
     ((0x41 \<le> (of_char c :: nat) \<and> (of_char c :: nat) \<le> 0x5A) \<or>
      (0x30 \<le> (of_char c :: nat) \<and> (of_char c :: nat) \<le> 0x39) \<or> c = CHR ''_'')"

definition optional :: "char \<Rightarrow> bytes \<Rightarrow> bytes \<times> bytes" where
  "optional c s = (if s \<noteq> [] \<and> hd s = c then ([c], tl s) else ([], s))"

definition expandVarRegex :: "bytes \<Rightarrow> (bytes list \<times> bytes) option" where
  "expandVarRegex s =
     (let (g1, s1) = (if take 2 s = [backslash, CHR ''$''] then ([backslash], tl s) else ([], s)) in
      if s1 = [] \<or> hd s1 \<noteq> CHR ''$'' then None
      else
        let s2 = tl s1;
            (g3, s3) = optional (CHR ''('') s2;
            (ob, s4) = optional (CHR ''{'') s3;
            g4 = takeWhile isNameChar s4;
            s5 = dropWhile isNameChar s4;
            (cb, s6) = optional (CHR ''}'') s5
        in Some ([g1 @ ''$'' @ g3 @ ob @ g4 @ cb, g1, ''$'', g3, g4], s6))"

text \<open>The callback of \<^verbatim>\<open>expandVariables\<close>, on the \<^verbatim>\<open>submatch\<close> of one match.\<close>

definition expandVar :: "bytes list \<Rightarrow> gomap \<Rightarrow> bytes" where
  "expandVar submatch m =
     (if submatch ! 1 = [backslash] \<or> submatch ! 2 = ''('' then tl (submatch ! 0)
      else if submatch ! 4 \<noteq> [] then index m (submatch ! 4)
      else submatch ! 0)"

lemma optional_length: "optional c s = (g, s') \<Longrightarrow> length s' \<le> length s"
  by (auto simp: optional_def split: if_splits)

lemma expandVarRegex_shorter:
  assumes "expandVarRegex s = Some (submatch, rest)"
  shows "length rest < length s"
proof -
  obtain g1 s1 where g1: "(if take 2 s = [backslash, CHR ''$''] then ([backslash], tl s) else ([], s)) = (g1, s1)"
    by (metis surj_pair)
  then have l1: "length s1 \<le> length s"
    by (auto split: if_splits)
  from assms g1 have ne: "s1 \<noteq> []"
    by (auto simp: expandVarRegex_def Let_def split: if_splits)
  obtain g3 s3 where g3: "optional (CHR ''('') (tl s1) = (g3, s3)"
    by (metis surj_pair)
  obtain ob s4 where ob: "optional (CHR ''{'') s3 = (ob, s4)"
    by (metis surj_pair)
  obtain cb s6 where cb: "optional (CHR ''}'') (dropWhile isNameChar s4) = (cb, s6)"
    by (metis surj_pair)
  from assms g1 g3 ob cb have "rest = s6"
    by (auto simp: expandVarRegex_def Let_def split: if_splits)
  moreover have "length s6 \<le> length (dropWhile isNameChar s4)"
    using cb by (rule optional_length)
  moreover have "length (dropWhile isNameChar s4) \<le> length s4"
    by (rule length_dropWhile_le)
  moreover have "length s4 \<le> length s3"
    using ob by (rule optional_length)
  moreover have "length s3 \<le> length (tl s1)"
    using g3 by (rule optional_length)
  moreover have "length (tl s1) < length s1"
    using ne by (cases s1) auto
  ultimately show ?thesis
    using l1 by simp
qed

function expandVariables :: "bytes \<Rightarrow> gomap \<Rightarrow> bytes" where
  "expandVariables [] m = []"
| "expandVariables (c # cs) m =
     (case expandVarRegex (c # cs) of
        None \<Rightarrow> c # expandVariables cs m
      | Some (submatch, rest) \<Rightarrow> expandVar submatch m @ expandVariables rest m)"
  by pat_completeness auto
termination
proof (relation "measure (\<lambda>(s, m). length s)")
  fix c cs and m :: gomap and x submatch rest
  assume "expandVarRegex (c # cs) = Some x" and "(submatch, rest) = x"
  then have "length rest < length (c # cs)"
    using expandVarRegex_shorter [of "c # cs" submatch rest] by simp
  then show "((rest, m), (c # cs, m)) \<in> measure (\<lambda>(s, m). length s)"
    by simp
qed simp_all

section \<open>The value extractor\<close>

text \<open>
  The backward loop of the unquoted branch,
  \<^verbatim>\<open>for i := endOfVar - 1; i >= 0; i--\<close>: the third argument is \<open>i + 1\<close>, the result
  the value of \<^verbatim>\<open>endOfVar\<close> when the loop is left.
\<close>

fun commentStart :: "rune list \<Rightarrow> nat \<Rightarrow> nat \<Rightarrow> nat" where
  "commentStart line endOfVar 0 = endOfVar"
| "commentStart line endOfVar (Suc i) =
     (if line ! i = of_char charComment \<and> 0 < i \<and> isSpace (line ! (i - 1)) then i
      else commentStart line endOfVar i)"

text \<open>
  The loop of the quoted branch, \<^verbatim>\<open>for i := 1; i < len(src); i++\<close>, over the bytes
  from index \<open>i\<close> on, with the byte before them: the index of the terminating quote.
\<close>

fun quoteEnd :: "char \<Rightarrow> char \<Rightarrow> bytes \<Rightarrow> nat \<Rightarrow> nat option" where
  "quoteEnd quote prevChar [] i = None"
| "quoteEnd quote prevChar (char # rest) i =
     (if char \<noteq> quote then quoteEnd quote char rest (Suc i)
      else if prevChar = backslash then quoteEnd quote char rest (Suc i)
      else Some i)"

definition extractVarValue :: "bytes \<Rightarrow> gomap \<Rightarrow> error + (bytes \<times> bytes)" where
  "extractVarValue src vars =
     (let (quote, hasPrefix) = hasQuotePrefix src in
      if \<not> hasPrefix then
        (let found = IndexFunc isLineEnd src;
             endOfLine = (case found of None \<Rightarrow> length src | Some i \<Rightarrow> i) in
         if found = None \<and> endOfLine = 0 then Inr ([], [])
         else
           let line = runes_of (take endOfLine src);
               endOfVar = length line in
           if endOfVar = 0 then Inr ([], drop endOfLine src)
           else
             let endOfVar' = commentStart line endOfVar endOfVar;
                 trimmed = TrimFunc isSpace (string_of_runes (take endOfVar' line))
             in Inr (expandVariables trimmed vars, drop endOfLine src))
      else
        (case quoteEnd quote (src ! 0) (tl src) 1 of
           Some i \<Rightarrow>
             let trimFunc = isCharFunc (of_char quote);
                 value = TrimLeftFunc trimFunc (TrimRightFunc trimFunc (take i src));
                 value' =
                   (if quote = prefixDoubleQuote then expandVariables (expandEscapes value) vars
                    else value)
             in Inr (value', drop (Suc i) src)
         | None \<Rightarrow>
             let valEndIndex =
                   (case IndexFunc (isCharFunc 0x0A) src of None \<Rightarrow> length src | Some i \<Rightarrow> i)
             in Inl (UnterminatedQuotedValue (take valEndIndex src))))"

section \<open>The file parser\<close>

lemma indexFunc_at: "indexFunc f truth s = Some i \<Longrightarrow> f (fst (DecodeRune (drop i s))) = truth"
proof (induction f truth s arbitrary: i rule: indexFunc.induct)
  case (1 f truth)
  then show ?case by simp
next
  case (2 f truth c cs)
  obtain r wid where d: "DecodeRune (c # cs) = (r, wid)"
    by (cases "DecodeRune (c # cs)")
  show ?case
  proof (cases "f r = truth")
    case True
    with 2 d show ?thesis by simp
  next
    case False
    with "2.prems" d obtain j where j: "indexFunc f truth (drop wid (c # cs)) = Some j" "i = wid + j"
      by auto
    from "2.IH" [OF d [symmetric] refl False j(1)]
    have "f (fst (DecodeRune (drop j (drop wid (c # cs))))) = truth" .
    with j(2) show ?thesis by (simp add: add.commute)
  qed
qed

lemma getStatementStart_Some:
  "getStatementStart src = Some c \<Longrightarrow>
     c \<noteq> [] \<and> length c \<le> length src \<and> \<not> unicode_IsSpace (fst (DecodeRune c))"
proof (induction src rule: getStatementStart.induct)
  case (1 src)
  from "1.prems" obtain pos where pos: "indexOfNonSpaceChar src = Some pos"
    by (auto simp: getStatementStart.simps [of src] split: option.splits)
  then have less: "pos < length src"
    by (simp add: indexOfNonSpaceChar_def IndexFunc_def indexFunc_less)
  from pos have nsp: "\<not> unicode_IsSpace (fst (DecodeRune (drop pos src)))"
    using indexFunc_at [of "\<lambda>r. \<not> unicode_IsSpace r" True src pos]
    by (simp add: indexOfNonSpaceChar_def IndexFunc_def)
  show ?case
  proof (cases "drop pos src ! 0 \<noteq> charComment")
    case True
    with "1.prems" pos have "c = drop pos src"
      by (simp add: getStatementStart.simps [of src])
    with less nsp show ?thesis by simp
  next
    case False
    with "1.prems" pos obtain pos' where
      pos': "IndexFunc (isCharFunc 0x0A) (drop pos src) = Some pos'"
      and rec: "getStatementStart (drop pos' (drop pos src)) = Some c"
      by (auto simp: getStatementStart.simps [of src] Let_def split: option.splits)
    from "1.IH" [OF pos refl _ pos' rec] False
    have "c \<noteq> [] \<and> length c \<le> length (drop pos' (drop pos src)) \<and>
          \<not> unicode_IsSpace (fst (DecodeRune c))"
      by simp
    then show ?thesis by auto
  qed
qed

lemma TrimLeftFunc_drop: "\<exists>n. TrimLeftFunc f s = drop n s"
proof (cases "indexFunc f False s")
  case None
  then have "TrimLeftFunc f s = drop (length s) s"
    by (simp add: TrimLeftFunc_def)
  then show ?thesis ..
next
  case (Some i)
  then have "TrimLeftFunc f s = drop i s"
    by (simp add: TrimLeftFunc_def)
  then show ?thesis ..
qed

lemma locateKeyName_drop:
  assumes "locateKeyName c = Inr (key, left)"
  shows "\<exists>n. left = drop n c"
proof -
  define src1 where "src1 = TrimLeftFunc isSpace c"
  define src where "src =
    (if HasPrefix src1 exportPrefix then
       let trimmed = TrimPrefix src1 exportPrefix in
       if IndexFunc isSpace trimmed = Some 0 then TrimLeftFunc isSpace trimmed else src1
     else src1)"
  obtain n1 where n1: "src1 = drop n1 c"
    unfolding src1_def using TrimLeftFunc_drop by blast
  have "\<exists>n. src = drop n src1"
  proof (cases "HasPrefix src1 exportPrefix \<and> IndexFunc isSpace (TrimPrefix src1 exportPrefix) = Some 0")
    case True
    obtain k where "TrimLeftFunc isSpace (TrimPrefix src1 exportPrefix) = drop k (TrimPrefix src1 exportPrefix)"
      using TrimLeftFunc_drop by blast
    with True have "src = drop (length exportPrefix + k) src1"
      by (auto simp: src_def TrimPrefix_def Let_def add.commute)
    then show ?thesis ..
  next
    case False
    then have "src = drop 0 src1"
      by (auto simp: src_def Let_def)
    then show ?thesis ..
  qed
  then obtain n2 where n2: "src = drop n2 src1"
    by blast
  from assms obtain k offset where "keyLoop src src 0 = Inr (k, offset)"
    and left: "left = TrimLeftFunc isSpace (drop offset src)"
    by (auto simp: locateKeyName_def src_def src1_def Let_def split: sum.splits if_splits)
  obtain n3 where "TrimLeftFunc isSpace (drop offset src) = drop n3 (drop offset src)"
    using TrimLeftFunc_drop by blast
  with left n1 n2 have "left = drop (n1 + n2 + offset + n3) c"
    by (simp add: add.commute add.left_commute)
  then show ?thesis ..
qed

lemma extractVarValue_rest:
  assumes "extractVarValue left vars = Inr (v, rest)"
  shows "length rest \<le> length left"
    and "left \<noteq> [] \<Longrightarrow> \<not> isLineEnd (fst (DecodeRune left)) \<Longrightarrow> length rest < length left"
proof -
  obtain quote hasPrefix where q: "hasQuotePrefix left = (quote, hasPrefix)"
    by (metis surj_pair)
  show "length rest \<le> length left"
    using assms q
    by (auto simp: extractVarValue_def Let_def split: if_splits option.splits)
  assume ne: "left \<noteq> []" and nle: "\<not> isLineEnd (fst (DecodeRune left))"
  show "length rest < length left"
  proof (cases hasPrefix)
    case True
    with assms q ne show ?thesis
      by (auto simp: extractVarValue_def Let_def split: if_splits option.splits)
  next
    case False
    have z: "IndexFunc isLineEnd left \<noteq> Some 0"
      using indexFunc_zero [of isLineEnd True left] nle by (auto simp: IndexFunc_def)
    show ?thesis
    proof (cases "IndexFunc isLineEnd left")
      case None
      with assms q False ne show ?thesis
        by (auto simp: extractVarValue_def Let_def split: if_splits)
    next
      case (Some i)
      with z have "0 < i" by (cases i) auto
      with assms q False ne Some show ?thesis
        by (auto simp: extractVarValue_def Let_def split: if_splits)
    qed
  qed
qed

text \<open>
  The loop of \<^verbatim>\<open>readFile\<close>. The source returns the map built so far together with
  the error; so does the model.
\<close>

function readFile_loop :: "bytes \<Rightarrow> gomap \<Rightarrow> gomap \<times> error option" where
  "readFile_loop cutset out =
     (case getStatementStart cutset of
        None \<Rightarrow> (out, None)
      | Some cutset' \<Rightarrow>
          (case locateKeyName cutset' of
             Inl err \<Rightarrow> (out, Some err)
           | Inr (key, left) \<Rightarrow>
               (case extractVarValue left out of
                  Inl err \<Rightarrow> (out, Some err)
                | Inr (value, left') \<Rightarrow> readFile_loop left' (AList.update key value out))))"
  by pat_completeness auto
termination
proof (relation "measure (\<lambda>(cutset, out). length cutset)")
  fix cutset and out :: gomap and c kl key left vr "value" rest
  assume g: "getStatementStart cutset = Some c"
    and k: "locateKeyName c = Inr kl" "(key, left) = kl"
    and e: "extractVarValue left out = Inr vr" "(value, rest) = vr"
  from g have c: "c \<noteq> []" "length c \<le> length cutset" "\<not> unicode_IsSpace (fst (DecodeRune c))"
    using getStatementStart_Some by blast+
  from k obtain n where n: "left = drop n c"
    using locateKeyName_drop [of c key left] by auto
  from e have e': "extractVarValue left out = Inr (value, rest)"
    by simp
  have "length rest < length c"
  proof (cases "n = 0")
    case True
    with n have "left = c" by simp
    moreover from c(3) have "\<not> isLineEnd (fst (DecodeRune c))"
      by (auto simp: isLineEnd_def unicode_IsSpace_def)
    ultimately show ?thesis
      using extractVarValue_rest(2) [OF e'] c(1) by simp
  next
    case False
    with n c(1) have "length left < length c"
      by simp
    with extractVarValue_rest(1) [OF e'] show ?thesis
      by simp
  qed
  with c(2) show "((rest, AList.update key value out), (cutset, out)) \<in> measure (\<lambda>(cutset, out). length cutset)"
    by simp
qed simp

declare readFile_loop.simps [simp del]

text \<open>
  What \<^verbatim>\<open>os.Open\<close> followed by \<^verbatim>\<open>io.Copy\<close> gives for a path: no such file, another
  error of \<^verbatim>\<open>os.Open\<close>, an error while reading, or the bytes of the file.
\<close>

datatype file_contents = ErrNotExist | OpenError bytes | ReadError bytes | Contents bytes

type_synonym filesystem = "bytes \<Rightarrow> file_contents"

text \<open>\<^verbatim>\<open>bytes.Replace(src, []byte("\r\n"), []byte("\n"), -1)\<close>.\<close>

fun Replace_CRLF :: "bytes \<Rightarrow> bytes" where
  "Replace_CRLF (c # d # rest) =
     (if c = CHR 0x0D \<and> d = CHR 0x0A then CHR 0x0A # Replace_CRLF rest
      else c # Replace_CRLF (d # rest))"
| "Replace_CRLF [c] = [c]"
| "Replace_CRLF [] = []"

definition readFile :: "filesystem \<Rightarrow> bytes \<Rightarrow> gomap \<times> error option" where
  "readFile fs filename =
     (case fs filename of
        ErrNotExist \<Rightarrow> ([], None)
      | OpenError e \<Rightarrow> ([], Some (FileError e))
      | ReadError e \<Rightarrow> ([], Some (FileError e))
      | Contents buf \<Rightarrow> readFile_loop (Replace_CRLF buf) [])"

section \<open>The layered loader\<close>

text \<open>
  The process environment is a list of name and value pairs (\<^verbatim>\<open>envs\<close> of package
  \<^verbatim>\<open>syscall\<close>): \<^verbatim>\<open>os.Environ\<close> lists it as \<^verbatim>\<open>name=value\<close> strings, \<^verbatim>\<open>os.Getenv\<close> gives
  the empty string for a name that is not set, and \<^verbatim>\<open>os.Setenv\<close> refuses with
  \<^verbatim>\<open>EINVAL\<close> an empty name, a name with \<^verbatim>\<open>=\<close> or a NUL byte in it and a value with
  a NUL byte in it. Both callers of \<^verbatim>\<open>os.Setenv\<close> throw its error away, so
  \<open>Setenv\<close> gives back the environment only, unchanged when the call is refused.
\<close>

type_synonym environment = "(bytes \<times> bytes) list"

definition Environ :: "environment \<Rightarrow> bytes list" where
  "Environ env = map (\<lambda>(k, v). k @ ''='' @ v) env"

definition Getenv :: "environment \<Rightarrow> bytes \<Rightarrow> bytes" where
  "Getenv env key = (case map_of env key of None \<Rightarrow> [] | Some v \<Rightarrow> v)"

definition Setenv :: "environment \<Rightarrow> bytes \<Rightarrow> bytes \<Rightarrow> environment" where
  "Setenv env key val =
     (if length key = 0 \<or> CHR ''='' \<in> set key \<or> CHR 0x00 \<in> set key \<or> CHR 0x00 \<in> set val
      then env
      else AList.update key val env)"

text \<open>The pairs that \<^verbatim>\<open>os.Setenv\<close> does not refuse.\<close>

definition accepted :: "bytes \<Rightarrow> bytes \<Rightarrow> bool" where
  "accepted key val =
     (key \<noteq> [] \<and> CHR ''='' \<notin> set key \<and> CHR 0x00 \<notin> set key \<and> CHR 0x00 \<notin> set val)"

text \<open>\<^verbatim>\<open>strings.Split(v, "=")[0]\<close>: the bytes before the first \<^verbatim>\<open>=\<close>, all of \<open>v\<close> if it has none.\<close>

definition Split_first :: "bytes \<Rightarrow> bytes" where
  "Split_first v = takeWhile (\<lambda>c. c \<noteq> CHR ''='') v"

definition originalVarNames :: "environment \<Rightarrow> bytes list" where
  "originalVarNames env = map Split_first (Environ env)"

definition appEnv :: "environment \<Rightarrow> bytes \<times> environment" where
  "appEnv env =
     (let e = Getenv env EnvKey in
      if e = [] then (DefaultEnv, Setenv env EnvKey DefaultEnv)
      else (e, env))"

text \<open>
  The four closures \<^verbatim>\<open>filesFn\<close>. A closure is run when its layer is reached, on the
  environment as it is then; the last two call \<^verbatim>\<open>appEnv\<close>, which may write to it.
\<close>

definition filesFn :: "bytes \<Rightarrow> (environment \<Rightarrow> bytes \<times> environment) list" where
  "filesFn p =
     [\<lambda>env. (p, env),
      \<lambda>env. (p @ ''.local'', env),
      \<lambda>env. (let (e, env') = appEnv env in (p @ ''.'' @ e, env')),
      \<lambda>env. (let (e, env') = appEnv env in (p @ ''.'' @ e @ ''.local'', env'))]"

text \<open>
  The inner loop, \<^verbatim>\<open>for k, v := range individualEnvMap\<close>. Go visits the entries of a
  map in no fixed order; the keys of a map differ from one another, so the
  environment that results holds the same values in whatever order they are visited.
\<close>

fun setAll :: "bytes list \<Rightarrow> gomap \<Rightarrow> environment \<Rightarrow> environment" where
  "setAll names [] env = env"
| "setAll names ((k, v) # kvs) env =
     setAll names kvs (if k \<notin> set names then Setenv env k v else env)"

text \<open>
  The outer loop, \<^verbatim>\<open>for _, f := range filesFn\<close>. Besides the error and the environment
  it yields the paths given to \<^verbatim>\<open>readFile\<close>, in the order they were opened.
\<close>

fun loadLayers ::
  "bytes list \<Rightarrow> filesystem \<Rightarrow> (environment \<Rightarrow> bytes \<times> environment) list \<Rightarrow>
   environment \<Rightarrow> bytes list \<Rightarrow> error option \<times> environment \<times> bytes list" where
  "loadLayers names fs [] env opened = (None, env, opened)"
| "loadLayers names fs (f # fns) env opened =
     (let (file, env1) = f env;
          (individualEnvMap, individualErr) = readFile fs file
      in case individualErr of
           Some err \<Rightarrow> (Some err, env1, opened @ [file])
         | None \<Rightarrow> loadLayers names fs fns (setAll names individualEnvMap env1) (opened @ [file]))"

definition LoadEnv :: "filesystem \<Rightarrow> bytes list \<Rightarrow> environment \<Rightarrow> error option \<times> environment \<times> bytes list" where
  "LoadEnv fs path env =
     (let path' = (if length path \<noteq> 1 then [''.env''] else path);
          p = path' ! 0
      in loadLayers (originalVarNames env) fs (filesFn p) env [])"

section \<open>Notions of the specification\<close>

text \<open>
  The path \<^verbatim>\<open>p\<close> of \<^verbatim>\<open>LoadEnv\<close>: the one path given, \<^verbatim>\<open>.env\<close> when none or
  several are given.
\<close>

definition basePath :: "bytes list \<Rightarrow> bytes" where
  "basePath path = (if length path \<noteq> 1 then [''.env''] else path) ! 0"

text \<open>
  The value that the last layer defining \<open>K\<close> gives it, for the maps of the layers in
  the order they are loaded (the words of the specification, not a function of the
  source).
\<close>

fun lastValue :: "bytes \<Rightarrow> gomap list \<Rightarrow> bytes option" where
  "lastValue K [] = None"
| "lastValue K (m # ms) = (case lastValue K ms of Some v \<Rightarrow> Some v | None \<Rightarrow> map_of m K)"

text \<open>
  The characters of a key as the specification gives them, \<^verbatim>\<open>[A-Za-z0-9_.]\<close>.
\<close>

definition isKeyChar :: "char \<Rightarrow> bool" where
  "isKeyChar c =
     ((0x41 \<le> (of_char c :: nat) \<and> (of_char c :: nat) \<le> 0x5A) \<or>
      (0x61 \<le> (of_char c :: nat) \<and> (of_char c :: nat) \<le> 0x7A) \<or>
      (0x30 \<le> (of_char c :: nat) \<and> (of_char c :: nat) \<le> 0x39) \<or>
      c = CHR ''_'' \<or> c = CHR ''.'')"

text \<open>
  The name \<^verbatim>\<open>appEnv\<close> resolves from what the process environment holds for \<^verbatim>\<open>APP_ENV\<close>:
  the value, or the default when there is none or it is empty.
\<close>

definition envName :: "bytes option \<Rightarrow> bytes" where
  "envName v = (case v of None \<Rightarrow> DefaultEnv | Some e \<Rightarrow> if e = [] then DefaultEnv else e)"

text \<open>
  What the layers \<open>ms\<close>, merged in this order, leave in the process environment for a
  key that was not set and is not in the snapshot: the value of the last layer that
  defines the key with a value \<^verbatim>\<open>os.Setenv\<close> accepts.
\<close>

fun merged :: "bytes \<Rightarrow> gomap list \<Rightarrow> bytes option" where
  "merged K [] = None"
| "merged K (m # ms) =
     (case merged K ms of
        Some v \<Rightarrow> Some v
      | None \<Rightarrow> (case map_of m K of Some v \<Rightarrow> if accepted K v then Some v else None | None \<Rightarrow> None))"

section \<open>Example directories\<close>

text \<open>The directories used in the instances below. A path that is not listed does not exist.\<close>

definition no_files :: filesystem where
  "no_files f = ErrNotExist"

text \<open>The base file sets \<^verbatim>\<open>AGE\<close>.\<close>

definition fs_age :: filesystem where
  "fs_age f = (if f = ''.env'' then Contents ''AGE=21'' else ErrNotExist)"

text \<open>Three layers define \<^verbatim>\<open>X\<close>; only the base file defines \<^verbatim>\<open>Y\<close>.\<close>

definition fs_layers :: filesystem where
  "fs_layers f =
     (if f = ''.env'' then Contents (''X=1'' @ [CHR 0x0A] @ ''Y=base'')
      else if f = ''.env.local'' then Contents ''X=2''
      else if f = ''.env.dev'' then Contents ''X=3''
      else ErrNotExist)"

text \<open>The base file sets \<^verbatim>\<open>APP_ENV=prod\<close>, the local file sets it to the empty string.\<close>

definition fs_empty_env :: filesystem where
  "fs_empty_env f =
     (if f = ''.env'' then Contents ''APP_ENV=prod''
      else if f = ''.env.local'' then Contents ''APP_ENV=''
      else ErrNotExist)"

text \<open>Two layers hold a statement with nothing before the separator.\<close>

definition fs_empty_key :: filesystem where
  "fs_empty_key f =
     (if f = ''.env'' then Contents ''=a''
      else if f = ''.env.local'' then Contents ''=b''
      else ErrNotExist)"

text \<open>The second line of the local file has a malformed key.\<close>

definition fs_malformed :: filesystem where
  "fs_malformed f =
     (if f = ''.env'' then Contents ''A=1''
      else if f = ''.env.local'' then Contents (''B=2'' @ [CHR 0x0A] @ ''1BAD!=x'')
      else if f = ''.env.dev'' then Contents ''C=3''
      else ErrNotExist)"

text \<open>The base file sets \<^verbatim>\<open>APP_ENV=prod\<close>, and there is a file for that environment.\<close>

definition fs_prod :: filesystem where
  "fs_prod f =
     (if f = ''.env'' then Contents ''APP_ENV=prod''
      else if f = ''.env.prod'' then Contents ''X=1''
      else ErrNotExist)"

text \<open>
  The base file sets \<^verbatim>\<open>D\<close> and refers to \<^verbatim>\<open>HOME\<close>; the local file refers to \<^verbatim>\<open>D\<close>.
\<close>

definition fs_reference :: filesystem where
  "fs_reference f =
     (if f = ''.env'' then Contents (''D=1'' @ [CHR 0x0A] @ ''B=$HOME'')
      else if f = ''.env.local'' then Contents ''C=$D''
      else ErrNotExist)"

text \<open>The local file gives \<^verbatim>\<open>X\<close> a value with a NUL byte in it.\<close>

definition fs_nul :: filesystem where
  "fs_nul f =
     (if f = ''.env'' then Contents ''X=ok''
      else if f = ''.env.local'' then Contents (''X=a'' @ [CHR 0x00] @ ''b'')
      else ErrNotExist)"


section \<open>Properties of the parser\<close>

subsection \<open>Searching and trimming text that is ASCII\<close>

lemma indexFunc_hit:
  "(of_char c :: nat) < 0x80 \<Longrightarrow> f (of_char c) = truth \<Longrightarrow> indexFunc f truth (c # cs) = Some 0"
  by (simp add: DecodeRune_ascii)

lemma indexFunc_miss:
  "(of_char c :: nat) < 0x80 \<Longrightarrow> f (of_char c) \<noteq> truth \<Longrightarrow>
     indexFunc f truth (c # cs) = map_option Suc (indexFunc f truth cs)"
proof -
  have "(+) (Suc 0) = Suc"
    by auto
  then show "(of_char c :: nat) < 0x80 \<Longrightarrow> f (of_char c) \<noteq> truth \<Longrightarrow>
     indexFunc f truth (c # cs) = map_option Suc (indexFunc f truth cs)"
    by (simp add: DecodeRune_ascii)
qed

lemma indexFunc_ascii_prefix:
  "\<forall>c \<in> set s. (of_char c :: nat) < 0x80 \<and> f (of_char c) \<noteq> truth \<Longrightarrow>
     indexFunc f truth (s @ t) = map_option (\<lambda>i. length s + i) (indexFunc f truth t)"
proof (induction s)
  case Nil
  then show ?case by (simp add: option.map_ident)
next
  case (Cons c s)
  then show ?case
    by (simp add: indexFunc_miss option.map_comp comp_def del: indexFunc.simps)
qed

lemma indexFunc_ascii_none:
  "\<forall>c \<in> set s. (of_char c :: nat) < 0x80 \<and> f (of_char c) \<noteq> truth \<Longrightarrow> indexFunc f truth s = None"
  using indexFunc_ascii_prefix [of s f truth "[]"] by simp

lemma TrimLeftFunc_ascii:
  "(of_char c :: nat) < 0x80 \<Longrightarrow> \<not> f (of_char c) \<Longrightarrow> TrimLeftFunc f (c # cs) = c # cs"
  by (simp add: TrimLeftFunc_def indexFunc_hit del: indexFunc.simps)

lemma DecodeLastRune_ascii:
  "s \<noteq> [] \<Longrightarrow> (of_char (last s) :: nat) < 0x80 \<Longrightarrow> DecodeLastRune s = (of_char (last s), 1)"
  by (simp add: DecodeLastRune_def Let_def RuneSelf_def last_conv_nth)

lemma TrimRightFunc_ascii:
  assumes "s \<noteq> []" and "(of_char (last s) :: nat) < 0x80" and "\<not> f (of_char (last s))"
  shows "TrimRightFunc f s = s"
proof -
  have "lastIndexFunc f False s = Some (length s - 1)"
    using assms by (simp add: lastIndexFunc.simps [of f False s] DecodeLastRune_ascii)
  moreover have "\<not> RuneSelf \<le> (of_char (s ! (length s - 1)) :: nat)"
    using assms by (simp add: RuneSelf_def last_conv_nth)
  ultimately show ?thesis
    using assms(1) by (simp add: TrimRightFunc_def)
qed

lemma TrimRightFunc_Nil: "TrimRightFunc f [] = []"
  by (simp add: TrimRightFunc_def lastIndexFunc.simps [of f False "[]"])

lemma runes_of_ascii:
  "\<forall>c \<in> set s. (of_char c :: nat) < 0x80 \<Longrightarrow> runes_of s = map of_char s"
  by (induction s) (simp_all add: DecodeRune_ascii)

lemma string_of_runes_ascii:
  "\<forall>c \<in> set s. (of_char c :: nat) < 0x80 \<Longrightarrow> string_of_runes (map of_char s) = s"
  by (induction s) (simp_all add: string_of_runes_def EncodeRune_def)

lemma commentStart_none:
  "\<forall>i < n. line ! i \<noteq> of_char charComment \<Longrightarrow> commentStart line e n = e"
  by (induction n) simp_all

subsection \<open>A well-formed key\<close>

lemma isKeyChar_ascii: "isKeyChar c \<Longrightarrow> (of_char c :: nat) < 0x80"
  by (auto simp: isKeyChar_def)

lemma isKeyChar_not_space: "isKeyChar c \<Longrightarrow> \<not> isSpace (of_char c)"
  by (auto simp: isKeyChar_def isSpace_def)

lemma isKeyChar_not_uspace: "isKeyChar c \<Longrightarrow> \<not> unicode_IsSpace (of_char c)"
  by (auto simp: isKeyChar_def unicode_IsSpace_def)

lemma isKeyChar_not_sep: "isKeyChar c \<Longrightarrow> c \<noteq> CHR ''='' \<and> c \<noteq> CHR '':'' \<and> c \<noteq> charComment"
  by (auto simp: isKeyChar_def charComment_def)

lemma isKeyChar_accepted:
  "isKeyChar c \<Longrightarrow> c = CHR ''_'' \<or> unicode_IsLetter (of_char c) \<or> unicode_IsNumber (of_char c) \<or> c = CHR ''.''"
  by (auto simp: isKeyChar_def unicode_IsLetter_def unicode_IsNumber_def)

lemma keyLoop_key:
  "\<forall>c \<in> set k. isKeyChar c \<Longrightarrow>
     keyLoop src (k @ CHR ''='' # rest) i = Inr (take (i + length k) src, Suc (i + length k))"
proof (induction k arbitrary: i)
  case Nil
  then show ?case by (simp add: isSpace_def)
next
  case (Cons c k)
  then have c: "isKeyChar c" by simp
  from Cons have "keyLoop src (k @ CHR ''='' # rest) (Suc i) = Inr (take (Suc i + length k) src, Suc (Suc i + length k))"
    by simp
  with c isKeyChar_not_space [OF c] isKeyChar_not_sep [OF c] isKeyChar_accepted [OF c]
  show ?case
    by (auto simp: Let_def)
qed

lemma length_exportPrefix: "length exportPrefix = 6"
  by (simp add: exportPrefix_def)

lemma export_inside_key:
  assumes "HasPrefix (k @ CHR ''='' # v) exportPrefix"
  shows "6 \<le> length k"
proof (rule ccontr)
  assume "\<not> 6 \<le> length k"
  then obtain j where j: "6 - length k = Suc j"
    by (cases "6 - length k") auto
  from assms have "take 6 (k @ CHR ''='' # v) = exportPrefix"
    by (simp add: HasPrefix_def length_exportPrefix)
  with j have "k @ CHR ''='' # take j v = ''export''"
    by (simp add: exportPrefix_def)
  then have "CHR ''='' \<in> set ''export''"
    by (metis in_set_conv_decomp)
  then show False
    by simp
qed

lemma locateKeyName_key:
  assumes "k \<noteq> []" and "\<forall>c \<in> set k. isKeyChar c"
  shows "locateKeyName (k @ CHR ''='' # v) = Inr (k, TrimLeftFunc isSpace v)"
proof -
  let ?w = "k @ CHR ''='' # v"
  obtain c k' where k: "k = c # k'"
    using assms(1) by (cases k) auto
  with assms(2) have c: "isKeyChar c" by simp
  have src1: "TrimLeftFunc isSpace ?w = ?w"
    using TrimLeftFunc_ascii [of c isSpace "k' @ CHR ''='' # v"] isKeyChar_ascii [OF c] isKeyChar_not_space [OF c]
    by (simp add: k)
  have noexp: "IndexFunc isSpace (TrimPrefix ?w exportPrefix) \<noteq> Some 0" if "HasPrefix ?w exportPrefix"
  proof
    assume z: "IndexFunc isSpace (TrimPrefix ?w exportPrefix) = Some 0"
    from that have len: "6 \<le> length k"
      by (rule export_inside_key)
    then have t: "TrimPrefix ?w exportPrefix = drop 6 k @ CHR ''='' # v"
      using that by (simp add: TrimPrefix_def length_exportPrefix)
    obtain d ds where d: "drop 6 k @ CHR ''='' # v = d # ds" and dk: "isKeyChar d \<or> d = CHR ''=''"
    proof (cases "drop 6 k")
      case Nil
      then show ?thesis using that by simp
    next
      case (Cons d ds')
      then have "d \<in> set k"
        by (metis in_set_dropD list.set_intros(1))
      with assms(2) Cons show ?thesis
        using that by simp
    qed
    from dk have "(of_char d :: nat) < 0x80 \<and> \<not> isSpace (of_char d)"
      using isKeyChar_ascii isKeyChar_not_space by (auto simp: isSpace_def)
    then have "\<not> isSpace (fst (DecodeRune (d # ds)))"
      by (simp add: DecodeRune_ascii)
    with z t d show False
      using indexFunc_zero [of isSpace True "d # ds"] by (simp add: IndexFunc_def)
  qed
  have loop: "keyLoop ?w ?w 0 = Inr (k, Suc (length k))"
    using keyLoop_key [OF assms(2), of ?w v 0] by simp
  have lastk: "isKeyChar (last k)"
    using assms by simp
  have key: "TrimRightFunc unicode_IsSpace k = k"
    using TrimRightFunc_ascii [OF assms(1), of unicode_IsSpace]
      isKeyChar_ascii [OF lastk] isKeyChar_not_uspace [OF lastk] by simp
  show ?thesis
    using noexp by (simp add: locateKeyName_def src1 Let_def loop key)
qed

lemma getStatementStart_key:
  assumes "isKeyChar c"
  shows "getStatementStart (c # s) = Some (c # s)"
proof -
  have "indexOfNonSpaceChar (c # s) = Some 0"
    using isKeyChar_ascii [OF assms] isKeyChar_not_uspace [OF assms]
    by (simp add: indexOfNonSpaceChar_def IndexFunc_def indexFunc_hit del: indexFunc.simps)
  then show ?thesis
    using isKeyChar_not_sep [OF assms] by (simp add: getStatementStart.simps [of "c # s"])
qed

lemma getStatementStart_Nil: "getStatementStart [] = None"
  by (simp add: getStatementStart.simps [of "[]"] indexOfNonSpaceChar_def IndexFunc_def)

subsection \<open>References to variables\<close>

lemma isNameChar_not_paren:
  "isNameChar c \<Longrightarrow> c \<noteq> CHR ''('' \<and> c \<noteq> CHR ''{'' \<and> c \<noteq> CHR ''}'' \<and> c \<noteq> CHR ''$'' \<and> c \<noteq> backslash"
  by (auto simp: isNameChar_def backslash_def)

lemma takeWhile_name:
  assumes "\<forall>c \<in> set n. isNameChar c" and "rest = [] \<or> \<not> isNameChar (hd rest)"
  shows "takeWhile isNameChar (n @ rest) = n" and "dropWhile isNameChar (n @ rest) = rest"
proof -
  have r: "takeWhile isNameChar rest = []" "dropWhile isNameChar rest = rest"
    using assms(2) by (cases rest; simp)+
  show "takeWhile isNameChar (n @ rest) = n"
    using assms(1) r by (simp add: takeWhile_append2)
  show "dropWhile isNameChar (n @ rest) = rest"
    using assms(1) r by (simp add: dropWhile_append2)
qed

lemma expandVarRegex_dollar:
  assumes "n \<noteq> []" and "\<forall>c \<in> set n. isNameChar c"
    and "rest = [] \<or> (\<not> isNameChar (hd rest) \<and> hd rest \<noteq> CHR ''}'')"
  shows "expandVarRegex (CHR ''$'' # n @ rest) = Some ([CHR ''$'' # n, [], ''$'', [], n], rest)"
proof -
  obtain c n' where n: "n = c # n'"
    using assms(1) by (cases n) auto
  with assms(2) have c: "isNameChar c" by simp
  have o1: "optional (CHR ''('') (n @ rest) = ([], n @ rest)"
    using isNameChar_not_paren [OF c] by (simp add: optional_def n)
  have o2: "optional (CHR ''{'') (n @ rest) = ([], n @ rest)"
    using isNameChar_not_paren [OF c] by (simp add: optional_def n)
  have o3: "optional (CHR ''}'') rest = ([], rest)"
    using assms(3) by (auto simp: optional_def)
  have tw: "takeWhile isNameChar (n @ rest) = n" "dropWhile isNameChar (n @ rest) = rest"
    using takeWhile_name [OF assms(2), of rest] assms(3) by auto
  show ?thesis
    by (simp add: expandVarRegex_def backslash_def o1 o2 o3 tw)
qed

lemma expandVarRegex_braces:
  assumes "n \<noteq> []" and "\<forall>c \<in> set n. isNameChar c"
  shows "expandVarRegex (CHR ''$'' # CHR ''{'' # n @ CHR ''}'' # rest)
           = Some ([CHR ''$'' # CHR ''{'' # n @ ''}'', [], ''$'', [], n], rest)"
proof -
  have o1: "optional (CHR ''('') (CHR ''{'' # n @ CHR ''}'' # rest) = ([], CHR ''{'' # n @ CHR ''}'' # rest)"
    by (simp add: optional_def)
  have o2: "optional (CHR ''{'') (CHR ''{'' # n @ CHR ''}'' # rest) = (''{'', n @ CHR ''}'' # rest)"
    by (simp add: optional_def)
  have o3: "optional (CHR ''}'') (CHR ''}'' # rest) = (''}'', rest)"
    by (simp add: optional_def)
  have "\<not> isNameChar (CHR ''}'')"
    by (simp add: isNameChar_def)
  then have tw: "takeWhile isNameChar (n @ CHR ''}'' # rest) = n"
    "dropWhile isNameChar (n @ CHR ''}'' # rest) = CHR ''}'' # rest"
    using takeWhile_name [OF assms(2), of "CHR ''}'' # rest"] by auto
  show ?thesis
    by (simp add: expandVarRegex_def backslash_def o1 o2 o3 tw)
qed

lemma expandVar_name: "n \<noteq> [] \<Longrightarrow> expandVar [whole, [], ''$'', [], n] m = index m n"
  by (simp add: expandVar_def)

lemma expandVariables_dollar:
  assumes "n \<noteq> []" and "\<forall>c \<in> set n. isNameChar c"
    and "rest = [] \<or> (\<not> isNameChar (hd rest) \<and> hd rest \<noteq> CHR ''}'')"
  shows "expandVariables (CHR ''$'' # n @ rest) m = index m n @ expandVariables rest m"
  using expandVarRegex_dollar [OF assms] assms(1) by (simp add: expandVar_name)

lemma expandVariables_braces:
  assumes "n \<noteq> []" and "\<forall>c \<in> set n. isNameChar c"
  shows "expandVariables (CHR ''$'' # CHR ''{'' # n @ CHR ''}'' # rest) m = index m n @ expandVariables rest m"
  using expandVarRegex_braces [OF assms] assms(1) by (simp add: expandVar_name)

lemma expandVarRegex_None:
  "c \<noteq> CHR ''$'' \<Longrightarrow> (c = backslash \<longrightarrow> s = [] \<or> hd s \<noteq> CHR ''$'') \<Longrightarrow> expandVarRegex (c # s) = None"
  by (cases s) (auto simp: expandVarRegex_def)

lemma expandVariables_plain:
  assumes "CHR ''$'' \<notin> set pre" and "pre = [] \<or> last pre \<noteq> backslash"
  shows "expandVariables (pre @ s) m = pre @ expandVariables s m"
  using assms
proof (induction pre)
  case Nil
  then show ?case by simp
next
  case (Cons c pre)
  have "expandVarRegex (c # pre @ s) = None"
  proof (rule expandVarRegex_None)
    show "c \<noteq> CHR ''$''" using Cons.prems by auto
    show "c = backslash \<longrightarrow> pre @ s = [] \<or> hd (pre @ s) \<noteq> CHR ''$''"
    proof (cases pre)
      case Nil
      with Cons.prems show ?thesis by simp
    next
      case (Cons d ds)
      with Cons.prems show ?thesis by auto
    qed
  qed
  moreover have "expandVariables (pre @ s) m = pre @ expandVariables s m"
    using Cons by (cases pre) auto
  ultimately show ?case by simp
qed

subsection \<open>Values without escapes\<close>

lemma replaceEscapes_plain: "b \<noteq> backslash \<Longrightarrow> replaceEscapes (b # s) = b # replaceEscapes s"
  by (cases s) simp_all

lemma unescapeChars_plain: "b \<noteq> backslash \<Longrightarrow> unescapeChars (b # s) = b # unescapeChars s"
  by (cases s) simp_all

lemma replaceEscapes_prefix: "backslash \<notin> set pre \<Longrightarrow> replaceEscapes (pre @ s) = pre @ replaceEscapes s"
  by (induction pre) (auto simp: replaceEscapes_plain simp del: replaceEscapes.simps)

lemma unescapeChars_prefix: "backslash \<notin> set pre \<Longrightarrow> unescapeChars (pre @ s) = pre @ unescapeChars s"
  by (induction pre) (auto simp: unescapeChars_plain simp del: unescapeChars.simps)

lemma expandEscapes_plain: "backslash \<notin> set v \<Longrightarrow> expandEscapes v = v"
  using replaceEscapes_prefix [of v "[]"] unescapeChars_prefix [of v "[]"]
  by (simp add: expandEscapes_def)

lemma quoteEnd_found:
  "q \<notin> set v \<Longrightarrow> (if v = [] then prev else last v) \<noteq> backslash \<Longrightarrow>
     quoteEnd q prev (v @ q # rest) i = Some (i + length v)"
  by (induction v arbitrary: prev i) auto

lemma extractVarValue_unquoted:
  assumes "v \<noteq> []"
    and "\<forall>c \<in> set v. (of_char c :: nat) < 0x80 \<and> \<not> isLineEnd (of_char c) \<and> c \<noteq> charComment"
    and "\<not> isSpace (of_char (hd v))" and "hd v \<noteq> prefixDoubleQuote" and "hd v \<noteq> prefixSingleQuote"
    and "\<not> isSpace (of_char (last v))"
    and "rest = [] \<or> ((of_char (hd rest) :: nat) < 0x80 \<and> isLineEnd (of_char (hd rest)))"
  shows "extractVarValue (v @ rest) vars = Inr (expandVariables v vars, rest)"
proof -
  obtain c v' where v: "v = c # v'"
    using assms(1) by (cases v) auto
  have ascii: "\<forall>c \<in> set v. (of_char c :: nat) < 0x80"
    using assms(2) by simp
  have q: "hasQuotePrefix (v @ rest) = (CHR 0x00, False)"
    using assms(4,5) by (simp add: hasQuotePrefix_def v)
  have pre: "IndexFunc isLineEnd (v @ rest) = map_option (\<lambda>i. length v + i) (indexFunc isLineEnd True rest)"
    unfolding IndexFunc_def using assms(2) by (intro indexFunc_ascii_prefix) simp
  have eol: "(case IndexFunc isLineEnd (v @ rest) of None \<Rightarrow> length (v @ rest) | Some i \<Rightarrow> i) = length v"
  proof (cases rest)
    case Nil
    have "indexFunc isLineEnd True v = None"
      using assms(2) by (intro indexFunc_ascii_none) simp
    with Nil show ?thesis by (simp add: IndexFunc_def)
  next
    case (Cons d ds)
    with assms(7) have "indexFunc isLineEnd True rest = Some 0"
      by (simp add: indexFunc_hit del: indexFunc.simps)
    then show ?thesis by (simp add: pre)
  qed
  have line: "runes_of v = map of_char v"
    using ascii by (rule runes_of_ascii)
  have "\<forall>i < length v. map of_char v ! i \<noteq> (of_char charComment :: nat)"
    using assms(2) by simp
  then have cs: "commentStart (map of_char v) (length v) (length v) = length v"
    by (rule commentStart_none)
  have str: "string_of_runes (map of_char v) = v"
    using ascii by (rule string_of_runes_ascii)
  have left: "TrimLeftFunc isSpace v = v"
    using TrimLeftFunc_ascii [of c isSpace v'] assms(2,3) by (simp add: v)
  have right: "TrimRightFunc isSpace v = v"
    using TrimRightFunc_ascii [OF assms(1), of isSpace] assms(1,2,6) by simp
  have trim: "TrimFunc isSpace v = v"
    by (simp add: TrimFunc_def left right)
  show ?thesis
    using assms(1)
    by (simp add: extractVarValue_def q eol Let_def line cs str trim del: indexFunc.simps)
qed

lemma of_char_quote: "(of_char c :: nat) = of_char prefixDoubleQuote \<longleftrightarrow> c = prefixDoubleQuote"
  by simp

lemma extractVarValue_double_quoted:
  assumes "v \<noteq> []" and "prefixDoubleQuote \<notin> set v" and "backslash \<notin> set v"
    and "(of_char (hd v) :: nat) < 0x80" and "(of_char (last v) :: nat) < 0x80"
  shows "extractVarValue (prefixDoubleQuote # v @ prefixDoubleQuote # rest) vars
           = Inr (expandVariables v vars, rest)"
proof -
  let ?q = prefixDoubleQuote
  let ?f = "isCharFunc (of_char ?q)"
  obtain c v' where v: "v = c # v'"
    using assms(1) by (cases v) auto
  have q: "hasQuotePrefix (?q # v @ ?q # rest) = (?q, True)"
    by (simp add: hasQuotePrefix_def)
  have "last v \<in> set v"
    using assms(1) by (rule last_in_set)
  with assms(3) have "last v \<noteq> backslash"
    by metis
  with assms(1) have "(if v = [] then ?q else last v) \<noteq> backslash"
    by simp
  then have e: "quoteEnd ?q ?q (v @ ?q # rest) 1 = Some (1 + length v)"
    using assms(2) by (intro quoteEnd_found)
  have qa: "(of_char ?q :: nat) < 0x80"
    by (simp add: prefixDoubleQuote_def)
  have lastv: "last v \<noteq> ?q"
    using \<open>last v \<in> set v\<close> assms(2) by metis
  have hdv: "c \<noteq> ?q"
    using assms(2) v by auto
  have right: "TrimRightFunc ?f (?q # v) = ?q # v"
    using TrimRightFunc_ascii [of "?q # v" ?f] assms(1,5) lastv
    by (simp add: isCharFunc_def)
  have "indexFunc ?f False (c # v') = Some 0"
    using assms(4) hdv by (intro indexFunc_hit) (simp_all add: v isCharFunc_def)
  moreover have "indexFunc ?f False (?q # v) = map_option Suc (indexFunc ?f False v)"
    using qa by (intro indexFunc_miss) (simp_all add: isCharFunc_def)
  ultimately have left: "TrimLeftFunc ?f (?q # v) = v"
    by (simp add: TrimLeftFunc_def v del: indexFunc.simps)
  have esc: "expandEscapes v = v"
    using assms(3) by (rule expandEscapes_plain)
  show ?thesis
    using e by (simp add: extractVarValue_def q Let_def right left esc del: indexFunc.simps)
qed

lemma readFile_loop_statement:
  assumes "k \<noteq> []" and "\<forall>c \<in> set k. isKeyChar c"
    and "extractVarValue (TrimLeftFunc isSpace w) out = Inr (val, rest)"
  shows "readFile_loop (k @ CHR ''='' # w) out = readFile_loop rest (AList.update k val out)"
proof -
  obtain c k' where k: "k = c # k'"
    using assms(1) by (cases k) auto
  with assms(2) have "isKeyChar c" by simp
  then have "getStatementStart (k @ CHR ''='' # w) = Some (k @ CHR ''='' # w)"
    using getStatementStart_key [of c "k' @ CHR ''='' # w"] by (simp add: k)
  then show ?thesis
    using locateKeyName_key [OF assms(1,2), of w] assms(3)
    by (simp add: readFile_loop.simps [of "k @ CHR ''='' # w"])
qed

lemma isNameChar_plain:
  "isNameChar c \<Longrightarrow>
     (of_char c :: nat) < 0x80 \<and> \<not> isLineEnd (of_char c) \<and> c \<noteq> charComment \<and>
     \<not> isSpace (of_char c) \<and> c \<noteq> prefixDoubleQuote"
  by (auto simp: isNameChar_def isLineEnd_def charComment_def isSpace_def prefixDoubleQuote_def)

lemma reference_unquoted:
  assumes "k \<noteq> []" and "\<forall>c \<in> set k. isKeyChar c" and "n \<noteq> []" and "\<forall>c \<in> set n. isNameChar c"
    and "rest = [] \<or> hd rest = CHR 0x0A"
  shows "readFile_loop (k @ ''=$'' @ n @ rest) out = readFile_loop rest (AList.update k (index out n) out)"
    and "readFile_loop (k @ ''=${'' @ n @ ''}'' @ rest) out = readFile_loop rest (AList.update k (index out n) out)"
proof -
  have r: "rest = [] \<or> ((of_char (hd rest) :: nat) < 0x80 \<and> isLineEnd (of_char (hd rest)))"
    using assms(5) by (auto simp: isLineEnd_def)
  have lastn: "isNameChar (last n)"
    using assms(3,4) by simp
  have dollar: "(of_char (CHR ''$'') :: nat) < 0x80 \<and> \<not> isSpace (of_char (CHR ''$''))"
    by (simp add: isSpace_def)
  let ?v = "CHR ''$'' # n"
  have "extractVarValue (?v @ rest) out = Inr (expandVariables ?v out, rest)"
    using assms(3,4) isNameChar_plain lastn r
    by (intro extractVarValue_unquoted)
       (auto simp: isLineEnd_def charComment_def isSpace_def prefixDoubleQuote_def prefixSingleQuote_def)
  moreover have "expandVariables ?v out = index out n"
    using expandVariables_dollar [OF assms(3,4), of "[]" out] by simp
  moreover have "TrimLeftFunc isSpace (?v @ rest) = ?v @ rest"
    using TrimLeftFunc_ascii [of "CHR ''$''" isSpace "n @ rest"] dollar by simp
  ultimately show "readFile_loop (k @ ''=$'' @ n @ rest) out = readFile_loop rest (AList.update k (index out n) out)"
    using readFile_loop_statement [OF assms(1,2), of "?v @ rest" out "index out n" rest] by simp
  let ?w = "CHR ''$'' # CHR ''{'' # n @ ''}''"
  have "extractVarValue (?w @ rest) out = Inr (expandVariables ?w out, rest)"
    using assms(3,4) isNameChar_plain r
    by (intro extractVarValue_unquoted)
       (auto simp: isLineEnd_def charComment_def isSpace_def prefixDoubleQuote_def prefixSingleQuote_def)
  moreover have "expandVariables ?w out = index out n"
    using expandVariables_braces [OF assms(3,4), of "[]" out] by simp
  moreover have "TrimLeftFunc isSpace (?w @ rest) = ?w @ rest"
    using TrimLeftFunc_ascii [of "CHR ''$''" isSpace "CHR ''{'' # n @ ''}'' @ rest"] dollar by simp
  ultimately show "readFile_loop (k @ ''=${'' @ n @ ''}'' @ rest) out = readFile_loop rest (AList.update k (index out n) out)"
    using readFile_loop_statement [OF assms(1,2), of "?w @ rest" out "index out n" rest] by simp
qed

lemma reference_double_quoted:
  assumes "k \<noteq> []" and "\<forall>c \<in> set k. isKeyChar c" and "n \<noteq> []" and "\<forall>c \<in> set n. isNameChar c"
  shows "readFile_loop (k @ ''='' @ [prefixDoubleQuote] @ ''$'' @ n @ [prefixDoubleQuote] @ rest) out
           = readFile_loop rest (AList.update k (index out n) out)"
    and "readFile_loop (k @ ''='' @ [prefixDoubleQuote] @ ''${'' @ n @ ''}'' @ [prefixDoubleQuote] @ rest) out
           = readFile_loop rest (AList.update k (index out n) out)"
proof -
  let ?q = prefixDoubleQuote
  have lastn: "isNameChar (last n)" and hdn: "isNameChar (hd n)"
    using assms(3,4) by simp_all
  have q: "(of_char ?q :: nat) < 0x80 \<and> \<not> isSpace (of_char ?q)"
    by (simp add: isSpace_def prefixDoubleQuote_def)
  have nq: "?q \<notin> set n" and nb: "backslash \<notin> set n"
    using assms(4) isNameChar_plain isNameChar_not_paren by blast+
  let ?v = "CHR ''$'' # n"
  have "extractVarValue (?q # ?v @ ?q # rest) out = Inr (expandVariables ?v out, rest)"
    using nq nb assms(3) isNameChar_plain [OF lastn]
    by (intro extractVarValue_double_quoted) (auto simp: prefixDoubleQuote_def backslash_def)
  moreover have "expandVariables ?v out = index out n"
    using expandVariables_dollar [OF assms(3,4), of "[]" out] by simp
  moreover have "TrimLeftFunc isSpace (?q # ?v @ ?q # rest) = ?q # ?v @ ?q # rest"
    using TrimLeftFunc_ascii [of ?q isSpace] q by simp
  ultimately show "readFile_loop (k @ ''='' @ [?q] @ ''$'' @ n @ [?q] @ rest) out
           = readFile_loop rest (AList.update k (index out n) out)"
    using readFile_loop_statement [OF assms(1,2), of "?q # ?v @ ?q # rest" out "index out n" rest] by simp
  let ?w = "CHR ''$'' # CHR ''{'' # n @ ''}''"
  have "extractVarValue (?q # ?w @ ?q # rest) out = Inr (expandVariables ?w out, rest)"
    using nq nb
    by (intro extractVarValue_double_quoted) (auto simp: prefixDoubleQuote_def backslash_def)
  moreover have "expandVariables ?w out = index out n"
    using expandVariables_braces [OF assms(3,4), of "[]" out] by simp
  moreover have "TrimLeftFunc isSpace (?q # ?w @ ?q # rest) = ?q # ?w @ ?q # rest"
    using TrimLeftFunc_ascii [of ?q isSpace] q by simp
  ultimately show "readFile_loop (k @ ''='' @ [?q] @ ''${'' @ n @ ''}'' @ [?q] @ rest) out
           = readFile_loop rest (AList.update k (index out n) out)"
    using readFile_loop_statement [OF assms(1,2), of "?q # ?w @ ?q # rest" out "index out n" rest] by simp
qed

section \<open>Properties of the loader\<close>

subsection \<open>What the loops write\<close>

lemma map_of_Setenv:
  "map_of (Setenv env k v) K = (if accepted k v \<and> K = k then Some v else map_of env K)"
  by (auto simp: Setenv_def accepted_def update_conv')

lemma Split_first_entry: "CHR ''='' \<notin> set k \<Longrightarrow> Split_first (k @ CHR ''='' # v) = k"
  unfolding Split_first_def by (induction k) auto

lemma originalVarNames_mem:
  assumes "K \<in> fst ` set env" and "CHR ''='' \<notin> set K"
  shows "K \<in> set (originalVarNames env)"
proof -
  from assms(1) obtain v where "(K, v) \<in> set env"
    by auto
  then have "Split_first (K @ ''='' @ v) \<in> set (originalVarNames env)"
    by (force simp: originalVarNames_def Environ_def)
  with assms(2) show ?thesis
    by (simp add: Split_first_entry)
qed

lemma Split_first_no_eq: "CHR ''='' \<notin> set (Split_first v)"
  unfolding Split_first_def by (induction v) auto

lemma originalVarNames_absent:
  assumes "K \<notin> fst ` set env" and "\<forall>k \<in> fst ` set env. CHR ''='' \<notin> set k"
  shows "K \<notin> set (originalVarNames env)"
proof
  assume "K \<in> set (originalVarNames env)"
  then obtain k v where kv: "(k, v) \<in> set env" and K: "K = Split_first (k @ ''='' @ v)"
    by (auto simp: originalVarNames_def Environ_def)
  from kv assms(2) have "CHR ''='' \<notin> set k"
    by force
  with K have "K = k"
    by (simp add: Split_first_entry)
  with kv assms(1) show False
    by force
qed

lemma setAll_untouched:
  "K \<in> set names \<or> CHR ''='' \<in> set K \<Longrightarrow> map_of (setAll names m env) K = map_of env K"
  by (induction m arbitrary: env) (auto simp: map_of_Setenv accepted_def)

lemma setAll_other:
  "K \<notin> fst ` set m \<Longrightarrow> map_of (setAll names m env) K = map_of env K"
  by (induction m arbitrary: env) (auto simp: map_of_Setenv)

lemma setAll_defined:
  assumes "distinct (map fst m)" and "map_of m K = Some v" and "K \<notin> set names" and "accepted K v"
  shows "map_of (setAll names m env) K = Some v"
  using assms
proof (induction m arbitrary: env)
  case Nil
  then show ?case by simp
next
  case (Cons kv m)
  obtain k w where kv: "kv = (k, w)" by (cases kv)
  show ?case
  proof (cases "k = K")
    case True
    with Cons.prems kv have "w = v" "K \<notin> fst ` set m"
      by auto
    with True kv Cons.prems show ?thesis
      by (simp add: setAll_other map_of_Setenv)
  next
    case False
    with Cons kv show ?thesis
      by simp
  qed
qed

lemma appEnv_other: "K \<noteq> EnvKey \<Longrightarrow> map_of (snd (appEnv env)) K = map_of env K"
  by (simp add: appEnv_def Let_def map_of_Setenv)

lemma appEnv_set: "map_of env EnvKey = Some e \<Longrightarrow> e \<noteq> [] \<Longrightarrow> appEnv env = (e, env)"
  by (simp add: appEnv_def Let_def Getenv_def)

lemma filesFn_keeps:
  assumes "f \<in> set (filesFn p)" and "map_of env K = Some v" and "K \<noteq> EnvKey \<or> v \<noteq> []"
  shows "map_of (snd (f env)) K = Some v"
proof (cases "K = EnvKey")
  case True
  with assms(2,3) have "appEnv env = (v, env)"
    by (simp add: appEnv_set)
  with assms(1,2) show ?thesis
    by (auto simp: filesFn_def)
next
  case False
  then have "map_of (snd (appEnv env)) K = map_of env K"
    by (rule appEnv_other)
  with assms(1,2) show ?thesis
    by (auto simp: filesFn_def split: prod.splits)
qed

lemma filesFn_other:
  assumes "f \<in> set (filesFn p)" and "K \<noteq> EnvKey"
  shows "map_of (snd (f env)) K = map_of env K"
  using assms appEnv_other [of K env]
  by (auto simp: filesFn_def split: prod.splits)

lemma loadLayers_keeps:
  assumes "set fns \<subseteq> set (filesFn p)" and "map_of env K = Some v" and "K \<noteq> EnvKey \<or> v \<noteq> []"
    and "K \<in> set names \<or> CHR ''='' \<in> set K"
  shows "map_of (fst (snd (loadLayers names fs fns env opened))) K = Some v"
  using assms
proof (induction fns arbitrary: env opened)
  case Nil
  then show ?case by simp
next
  case (Cons f fns)
  obtain fname env1 where f: "f env = (fname, env1)"
    by (cases "f env")
  obtain m err where r: "readFile fs fname = (m, err)"
    by (cases "readFile fs fname")
  from Cons.prems f have env1: "map_of env1 K = Some v"
    using filesFn_keeps [of f p env K v] by auto
  show ?case
  proof (cases err)
    case (Some e)
    with f r env1 show ?thesis by simp
  next
    case None
    from env1 Cons.prems(4) have "map_of (setAll names m env1) K = Some v"
      by (simp add: setAll_untouched)
    with Cons.IH [of "setAll names m env1"] Cons.prems f r None show ?thesis
      by simp
  qed
qed

lemma map_of_Some_fst: "map_of env K = Some v \<Longrightarrow> K \<in> fst ` set env"
  by (metis map_of_SomeD fst_conv image_eqI)

lemma EnvKey_no_eq: "CHR ''='' \<notin> set EnvKey"
  by (simp add: EnvKey_def)

lemma accepted_default: "accepted EnvKey DefaultEnv"
  by (simp add: accepted_def EnvKey_def DefaultEnv_def)

lemma LoadEnv_default_written:
  assumes "map_of env EnvKey = Some []" and "LoadEnv fs path env = (None, env', opened)"
  shows "map_of env' EnvKey = Some DefaultEnv"
proof -
  define names where "names = originalVarNames env"
  define p where "p = (if length path \<noteq> 1 then [''.env''] else path) ! 0"
  have mem: "EnvKey \<in> set names"
    unfolding names_def using assms(1) EnvKey_no_eq
    by (intro originalVarNames_mem map_of_Some_fst)
  have keep: "map_of (setAll names m e) EnvKey = map_of e EnvKey" for m e
    using mem by (simp add: setAll_untouched)
  have L: "loadLayers names fs (filesFn p) env [] = (None, env', opened)"
    using assms(2) by (simp add: LoadEnv_def Let_def names_def p_def)
  obtain m1 e1 where r1: "readFile fs p = (m1, e1)"
    by (cases "readFile fs p")
  obtain m2 e2 where r2: "readFile fs (p @ ''.local'') = (m2, e2)"
    by (cases "readFile fs (p @ ''.local'')")
  obtain m3 e3 where r3: "readFile fs (p @ CHR ''.'' # DefaultEnv) = (m3, e3)"
    by (cases "readFile fs (p @ CHR ''.'' # DefaultEnv)")
  obtain m4 e4 where r4: "readFile fs (p @ CHR ''.'' # DefaultEnv @ ''.local'') = (m4, e4)"
    by (cases "readFile fs (p @ CHR ''.'' # DefaultEnv @ ''.local'')")
  define a where "a = setAll names m1 env"
  define b where "b = setAll names m2 a"
  define c0 where "c0 = Setenv b EnvKey DefaultEnv"
  define c where "c = setAll names m3 c0"
  define d where "d = setAll names m4 c"
  have b: "map_of b EnvKey = Some []"
    by (simp add: a_def b_def keep assms(1))
  then have app3: "appEnv b = (DefaultEnv, c0)"
    by (simp add: appEnv_def Getenv_def c0_def)
  have "map_of c0 EnvKey = Some DefaultEnv"
    by (simp add: c0_def map_of_Setenv accepted_default)
  then have c: "map_of c EnvKey = Some DefaultEnv"
    by (simp add: c_def keep)
  then have app4: "appEnv c = (DefaultEnv, c)"
    by (simp add: appEnv_set DefaultEnv_def)
  have d: "map_of d EnvKey = Some DefaultEnv"
    by (simp add: d_def keep c)
  from L have "env' = d"
    by (simp add: filesFn_def r1 r2 r3 r4 app3 app4 a_def [symmetric] b_def [symmetric]
        c_def [symmetric] d_def [symmetric] split: option.splits)
  with d show ?thesis
    by simp
qed

subsection \<open>Layer by layer\<close>

lemma readFile_loop_distinct:
  "distinct (map fst out) \<Longrightarrow> distinct (map fst (fst (readFile_loop cutset out)))"
proof (induction cutset out rule: readFile_loop.induct)
  case (1 cutset out)
  show ?case
  proof (cases "getStatementStart cutset")
    case None
    with 1 show ?thesis by (simp add: readFile_loop.simps [of cutset])
  next
    case (Some c)
    show ?thesis
    proof (cases "locateKeyName c")
      case (Inl e)
      with 1 Some show ?thesis by (simp add: readFile_loop.simps [of cutset])
    next
      case (Inr kl)
      obtain key left where kl: "kl = (key, left)" by (cases kl)
      show ?thesis
      proof (cases "extractVarValue left out")
        case (Inl e)
        with 1 Some Inr kl show ?thesis by (simp add: readFile_loop.simps [of cutset])
      next
        case (Inr vr)
        obtain val rest where vr: "vr = (val, rest)" by (cases vr)
        from "1.prems" have "distinct (map fst (AList.update key val out))"
          by (rule distinct_update)
        with "1.IH" [OF Some \<open>locateKeyName c = Inr kl\<close> kl [symmetric] Inr vr [symmetric]]
        have "distinct (map fst (fst (readFile_loop rest (AList.update key val out))))"
          by simp
        with Some \<open>locateKeyName c = Inr kl\<close> kl Inr vr show ?thesis
          by (simp add: readFile_loop.simps [of cutset])
      qed
    qed
  qed
qed

lemma readFile_distinct: "distinct (map fst (fst (readFile fs file)))"
  by (cases "fs file") (simp_all add: readFile_def readFile_loop_distinct)

lemma setAll_layer:
  assumes "K \<notin> set names" and "distinct (map fst m)"
  shows "map_of m K = None \<Longrightarrow> map_of (setAll names m env) K = map_of env K"
    and "map_of m K = Some v \<Longrightarrow> accepted K v \<Longrightarrow> map_of (setAll names m env) K = Some v"
proof -
  show "map_of (setAll names m env) K = map_of env K" if "map_of m K = None"
    using that by (simp add: setAll_other map_of_eq_None_iff)
  show "map_of (setAll names m env) K = Some v" if "map_of m K = Some v" "accepted K v"
    using that assms by (simp add: setAll_defined)
qed

lemma LoadEnv_loadLayers:
  "LoadEnv fs path env = loadLayers (originalVarNames env) fs (filesFn (basePath path)) env []"
  by (simp add: LoadEnv_def basePath_def Let_def)

lemma LoadEnv_opened:
  assumes "LoadEnv fs path env = (None, env', opened)"
  shows "\<exists>e3 e4. opened = [basePath path, basePath path @ ''.local'', basePath path @ ''.'' @ e3,
           basePath path @ ''.'' @ e4 @ ''.local'']"
  using assms unfolding LoadEnv_loadLayers filesFn_def
  by (auto simp: Let_def split: prod.splits option.splits)

lemma loadLayers_append:
  "loadLayers names fs (pre @ rest) env opened =
     (case loadLayers names fs pre env opened of
        (None, env1, opened1) \<Rightarrow> loadLayers names fs rest env1 opened1
      | (Some e, env1, opened1) \<Rightarrow> (Some e, env1, opened1))"
  by (induction pre arbitrary: env opened) (auto simp: Let_def split: prod.splits option.splits)

subsection \<open>The layers one after another\<close>

lemma envName_nonempty: "envName v \<noteq> []"
  by (simp add: envName_def DefaultEnv_def split: option.splits)

lemma appEnv_resolves:
  "fst (appEnv env) = envName (map_of env EnvKey)"
  "map_of (snd (appEnv env)) EnvKey = Some (envName (map_of env EnvKey))"
  by (auto simp: appEnv_def Let_def Getenv_def envName_def map_of_Setenv accepted_default
      split: option.splits)

lemma setAll_refused:
  "\<forall>v. (K, v) \<in> set m \<longrightarrow> \<not> accepted K v \<Longrightarrow> map_of (setAll names m env) K = map_of env K"
  by (induction m arbitrary: env) (auto simp: map_of_Setenv)

lemma setAll_value:
  assumes "K \<notin> set names" and "distinct (map fst m)"
  shows "map_of (setAll names m env) K =
           (case map_of m K of
              Some v \<Rightarrow> if accepted K v then Some v else map_of env K
            | None \<Rightarrow> map_of env K)"
proof (cases "map_of m K")
  case None
  then show ?thesis
    using setAll_layer(1) [OF assms None] by simp
next
  case (Some v)
  show ?thesis
  proof (cases "accepted K v")
    case True
    with Some show ?thesis
      using setAll_layer(2) [OF assms Some True] by simp
  next
    case False
    have "\<forall>w. (K, w) \<in> set m \<longrightarrow> \<not> accepted K w"
    proof (intro allI impI)
      fix w
      assume "(K, w) \<in> set m"
      with assms(2) have "map_of m K = Some w"
        by simp
      with Some False show "\<not> accepted K w"
        by simp
    qed
    then have "map_of (setAll names m env) K = map_of env K"
      by (rule setAll_refused)
    with Some False show ?thesis
      by simp
  qed
qed

lemma loadLayers_last_any:
  assumes "set fns \<subseteq> set (filesFn p)" and "K \<notin> set names"
    and "loadLayers names fs fns env opened = (None, env', opened')"
  shows "\<exists>news. opened' = opened @ news \<and> length news = length fns \<and>
           (case lastValue K (map (\<lambda>f. fst (readFile fs f)) news) of
              None \<Rightarrow> (K \<noteq> EnvKey \<or> (\<exists>e. map_of env K = Some e \<and> e \<noteq> [])) \<longrightarrow>
                        map_of env' K = map_of env K
            | Some v \<Rightarrow> accepted K v \<and> (K \<noteq> EnvKey \<or> v \<noteq> []) \<longrightarrow> map_of env' K = Some v)"
  using assms
proof (induction fns arbitrary: env opened)
  case Nil
  then show ?case by simp
next
  case (Cons f fns)
  obtain fname env1 where f: "f env = (fname, env1)"
    by (cases "f env")
  obtain m err where r: "readFile fs fname = (m, err)"
    by (cases "readFile fs fname")
  have fin: "f \<in> set (filesFn p)"
    using Cons.prems(1) by simp
  have env1: "map_of env1 K = map_of env K"
    if "K \<noteq> EnvKey \<or> (\<exists>e. map_of env K = Some e \<and> e \<noteq> [])"
  proof (cases "K = EnvKey")
    case True
    with that obtain e where "map_of env K = Some e" "e \<noteq> []"
      by auto
    then show ?thesis
      using filesFn_keeps [OF fin, of env K e] f by simp
  next
    case False
    then show ?thesis
      using filesFn_other [OF fin, of K env] f by simp
  qed
  from Cons.prems(3) f r have err: "err = None"
    by (cases err) auto
  define env2 where "env2 = setAll names m env1"
  from Cons.prems(3) f r err
  have L: "loadLayers names fs fns env2 (opened @ [fname]) = (None, env', opened')"
    by (simp add: env2_def)
  from Cons.IH [OF _ Cons.prems(2) L] Cons.prems(1)
  obtain news where news: "opened' = (opened @ [fname]) @ news" "length news = length fns"
    and IH: "case lastValue K (map (\<lambda>f. fst (readFile fs f)) news) of
              None \<Rightarrow> (K \<noteq> EnvKey \<or> (\<exists>e. map_of env2 K = Some e \<and> e \<noteq> [])) \<longrightarrow>
                        map_of env' K = map_of env2 K
            | Some v \<Rightarrow> accepted K v \<and> (K \<noteq> EnvKey \<or> v \<noteq> []) \<longrightarrow> map_of env' K = Some v"
    by auto
  have d: "distinct (map fst m)"
    using readFile_distinct [of fs fname] r by simp
  have "case lastValue K (map (\<lambda>f. fst (readFile fs f)) (fname # news)) of
              None \<Rightarrow> (K \<noteq> EnvKey \<or> (\<exists>e. map_of env K = Some e \<and> e \<noteq> [])) \<longrightarrow>
                        map_of env' K = map_of env K
            | Some v \<Rightarrow> accepted K v \<and> (K \<noteq> EnvKey \<or> v \<noteq> []) \<longrightarrow> map_of env' K = Some v"
  proof (cases "lastValue K (map (\<lambda>f. fst (readFile fs f)) news)")
    case (Some v)
    with IH show ?thesis by simp
  next
    case None
    with IH have e: "K \<noteq> EnvKey \<or> (\<exists>e. map_of env2 K = Some e \<and> e \<noteq> []) \<Longrightarrow>
        map_of env' K = map_of env2 K"
      by simp
    show ?thesis
    proof (cases "map_of m K")
      case None
      have 2: "map_of env2 K = map_of env1 K"
        using setAll_layer(1) [OF Cons.prems(2) d None, of env1] by (simp add: env2_def)
      have "map_of env' K = map_of env K"
        if c: "K \<noteq> EnvKey \<or> (\<exists>e. map_of env K = Some e \<and> e \<noteq> [])"
        using e env1 [OF c] 2 c by auto
      then show ?thesis
        using \<open>lastValue K (map (\<lambda>f. fst (readFile fs f)) news) = None\<close> r None
        by simp
    next
      case (Some v)
      have "map_of env' K = Some v" if a: "accepted K v" and c: "K \<noteq> EnvKey \<or> v \<noteq> []"
      proof -
        have 2: "map_of env2 K = Some v"
          using setAll_layer(2) [OF Cons.prems(2) d Some a, of env1] by (simp add: env2_def)
        with c e show ?thesis
          by auto
      qed
      then show ?thesis
        using \<open>lastValue K (map (\<lambda>f. fst (readFile fs f)) news) = None\<close> r Some
        by simp
    qed
  qed
  with news show ?case
    by (intro exI [of _ "fname # news"]) simp
qed

lemma LoadEnv_unfold:
  "LoadEnv fs path env =
     (let names = originalVarNames env; p = basePath path in
      case readFile fs p of
        (m1, Some e) \<Rightarrow> (Some e, env, [p])
      | (m1, None) \<Rightarrow>
          let a = setAll names m1 env in
          case readFile fs (p @ ''.local'') of
            (m2, Some e) \<Rightarrow> (Some e, a, [p, p @ ''.local''])
          | (m2, None) \<Rightarrow>
              let b = setAll names m2 a; e3 = fst (appEnv b); c0 = snd (appEnv b) in
              case readFile fs (p @ ''.'' @ e3) of
                (m3, Some e) \<Rightarrow> (Some e, c0, [p, p @ ''.local'', p @ ''.'' @ e3])
              | (m3, None) \<Rightarrow>
                  let c = setAll names m3 c0; e4 = fst (appEnv c); d0 = snd (appEnv c) in
                  case readFile fs (p @ ''.'' @ e4 @ ''.local'') of
                    (m4, Some e) \<Rightarrow>
                      (Some e, d0, [p, p @ ''.local'', p @ ''.'' @ e3, p @ ''.'' @ e4 @ ''.local''])
                  | (m4, None) \<Rightarrow>
                      (None, setAll names m4 d0,
                       [p, p @ ''.local'', p @ ''.'' @ e3, p @ ''.'' @ e4 @ ''.local'']))"
  unfolding LoadEnv_loadLayers filesFn_def
  by (auto simp: Let_def split: prod.splits option.splits)

lemma merged_two:
  assumes "K \<notin> set names" and "distinct (map fst m1)" and "distinct (map fst m2)"
    and "map_of env K = None"
  shows "map_of (setAll names m2 (setAll names m1 env)) K = merged K [m1, m2]"
  using assms by (simp add: setAll_value split: option.splits)

lemma LoadEnv_name_fixed:
  assumes "map_of env EnvKey = Some e0" and "LoadEnv fs path env = (err, env', opened)"
  shows "opened = take (length opened)
           [basePath path, basePath path @ ''.local'', basePath path @ ''.'' @ envName (Some e0),
            basePath path @ ''.'' @ envName (Some e0) @ ''.local''] \<and>
         (2 < length opened \<longrightarrow> map_of env' EnvKey = Some (envName (Some e0)))"
proof -
  define names where "names = originalVarNames env"
  define p where "p = basePath path"
  define E where "E = envName (Some e0)"
  have mem: "EnvKey \<in> set names"
    unfolding names_def using assms(1) EnvKey_no_eq
    by (intro originalVarNames_mem map_of_Some_fst)
  have keep: "map_of (setAll names m x) EnvKey = map_of x EnvKey" for m x
    using mem by (simp add: setAll_untouched)
  define C0 where "C0 m1 m2 = snd (appEnv (setAll names m2 (setAll names m1 env)))" for m1 m2
  have b: "map_of (setAll names m2 (setAll names m1 env)) EnvKey = Some e0" for m1 m2
    by (simp add: keep assms(1))
  have e3: "fst (appEnv (setAll names m2 (setAll names m1 env))) = E" for m1 m2
    by (simp add: appEnv_resolves(1) b E_def)
  have c0: "map_of (C0 m1 m2) EnvKey = Some E" for m1 m2
    by (simp add: C0_def appEnv_resolves(2) b E_def)
  have ne: "E \<noteq> []"
    by (simp add: E_def envName_nonempty)
  have app4: "appEnv (setAll names m3 (C0 m1 m2)) = (E, setAll names m3 (C0 m1 m2))" for m1 m2 m3
    using ne by (intro appEnv_set) (simp_all add: keep c0)
  from assms(2) show ?thesis
    unfolding LoadEnv_unfold names_def [symmetric] p_def [symmetric] E_def [symmetric]
    by (auto simp: Let_def e3 C0_def [symmetric] app4 keep c0 split: prod.splits option.splits)
qed

lemma merged_last:
  "merged K (ms @ [m]) = (case merged K [m] of Some v \<Rightarrow> Some v | None \<Rightarrow> merged K ms)"
  by (induction ms) (auto split: option.splits)

lemma merged_three:
  "merged K [m1, m2, m3] = (case merged K [m3] of Some v \<Rightarrow> Some v | None \<Rightarrow> merged K [m1, m2])"
  using merged_last [of K "[m1, m2]" m3] by simp

lemma setAll_merged:
  assumes "K \<notin> set names" and "distinct (map fst m)"
  shows "map_of (setAll names m env) K = (case merged K [m] of Some v \<Rightarrow> Some v | None \<Rightarrow> map_of env K)"
  using assms by (simp add: setAll_value split: option.splits)

lemma envName_idem: "envName (Some (envName v)) = envName v"
  using envName_nonempty [of v] by (simp add: envName_def split: option.splits)

lemma LoadEnv_name_lazy:
  assumes "EnvKey \<notin> fst ` set env" and "\<forall>k \<in> fst ` set env. CHR ''='' \<notin> set k"
    and "readFile fs (basePath path) = (m1, None)"
    and "readFile fs (basePath path @ ''.local'') = (m2, None)"
    and "LoadEnv fs path env = (err, env', opened)"
  shows "2 < length opened \<and>
         take 2 opened = [basePath path, basePath path @ ''.local''] \<and>
         opened ! 2 = basePath path @ ''.'' @ envName (merged EnvKey [m1, m2]) \<and>
         (case readFile fs (opened ! 2) of
            (m3, Some e) \<Rightarrow>
              length opened = 3 \<and> map_of env' EnvKey = Some (envName (merged EnvKey [m1, m2]))
          | (m3, None) \<Rightarrow>
              length opened = 4 \<and>
              opened ! 3 = basePath path @ ''.'' @ envName (merged EnvKey [m1, m2, m3]) @ ''.local'' \<and>
              map_of env' EnvKey =
                (case readFile fs (opened ! 3) of
                   (m4, Some e) \<Rightarrow> Some (envName (merged EnvKey [m1, m2, m3]))
                 | (m4, None) \<Rightarrow>
                     (case merged EnvKey [m4] of
                        Some v \<Rightarrow> Some v
                      | None \<Rightarrow> Some (envName (merged EnvKey [m1, m2, m3])))))"
proof -
  define names where "names = originalVarNames env"
  define p where "p = basePath path"
  define E where "E = envName (merged EnvKey [m1, m2])"
  have nmem: "EnvKey \<notin> set names"
    unfolding names_def using assms(1,2) by (rule originalVarNames_absent)
  have d1: "distinct (map fst m1)" and d2: "distinct (map fst m2)"
    using readFile_distinct [of fs "basePath path"] readFile_distinct [of fs "basePath path @ ''.local''"]
      assms(3,4) by simp_all
  define b where "b = setAll names m2 (setAll names m1 env)"
  define c0 where "c0 = snd (appEnv b)"
  have "map_of env EnvKey = None"
    using assms(1) by (simp add: map_of_eq_None_iff)
  then have "map_of b EnvKey = merged EnvKey [m1, m2]"
    unfolding b_def using nmem d1 d2 by (intro merged_two)
  then have e3: "fst (appEnv b) = E" and c0: "map_of c0 EnvKey = Some E"
    by (simp_all add: appEnv_resolves E_def c0_def)
  obtain m3 x3 where r3: "readFile fs (p @ CHR ''.'' # E) = (m3, x3)"
    by (cases "readFile fs (p @ CHR ''.'' # E)")
  have d3: "distinct (map fst m3)"
    using readFile_distinct [of fs "p @ CHR ''.'' # E"] r3 by simp
  define F where "F = envName (merged EnvKey [m1, m2, m3])"
  define c where "c = setAll names m3 c0"
  define d0 where "d0 = snd (appEnv c)"
  have "map_of c EnvKey = (case merged EnvKey [m3] of Some v \<Rightarrow> Some v | None \<Rightarrow> Some E)"
    unfolding c_def by (simp add: setAll_merged [OF nmem d3] c0 split: option.splits)
  then have "envName (map_of c EnvKey) = F"
    unfolding F_def merged_three E_def
    by (cases "merged EnvKey [m3]") (simp_all add: envName_idem)
  then have e4: "fst (appEnv c) = F" and d0: "map_of d0 EnvKey = Some F"
    by (simp_all add: appEnv_resolves d0_def)
  obtain m4 x4 where r4: "readFile fs (p @ CHR ''.'' # F @ ''.local'') = (m4, x4)"
    by (cases "readFile fs (p @ CHR ''.'' # F @ ''.local'')")
  have d4: "distinct (map fst m4)"
    using readFile_distinct [of fs "p @ CHR ''.'' # F @ ''.local''"] r4 by simp
  have fin: "map_of (setAll names m4 d0) EnvKey =
      (case merged EnvKey [m4] of Some v \<Rightarrow> Some v | None \<Rightarrow> Some F)"
    by (simp add: setAll_merged [OF nmem d4] d0 split: option.splits)
  have L: "(err, env', opened) =
      (case x3 of
         Some e \<Rightarrow> (Some e, c0, [p, p @ ''.local'', p @ CHR ''.'' # E])
       | None \<Rightarrow>
           (case x4 of
              Some e \<Rightarrow> (Some e, d0, [p, p @ ''.local'', p @ CHR ''.'' # E, p @ CHR ''.'' # F @ ''.local''])
            | None \<Rightarrow> (None, setAll names m4 d0,
                [p, p @ ''.local'', p @ CHR ''.'' # E, p @ CHR ''.'' # F @ ''.local''])))"
    using assms(3,4,5) r3 r4
    unfolding LoadEnv_unfold names_def [symmetric] p_def [symmetric]
    by (simp add: Let_def b_def [symmetric] e3 c0_def [symmetric] c_def [symmetric]
        e4 d0_def [symmetric] split: option.splits)
  have "2 < length opened \<and>
         take 2 opened = [p, p @ ''.local''] \<and>
         opened ! 2 = p @ ''.'' @ E \<and>
         (case readFile fs (opened ! 2) of
            (m3, Some e) \<Rightarrow> length opened = 3 \<and> map_of env' EnvKey = Some E
          | (m3, None) \<Rightarrow>
              length opened = 4 \<and>
              opened ! 3 = p @ ''.'' @ envName (merged EnvKey [m1, m2, m3]) @ ''.local'' \<and>
              map_of env' EnvKey =
                (case readFile fs (opened ! 3) of
                   (m4, Some e) \<Rightarrow> Some (envName (merged EnvKey [m1, m2, m3]))
                 | (m4, None) \<Rightarrow>
                     (case merged EnvKey [m4] of
                        Some v \<Rightarrow> Some v
                      | None \<Rightarrow> Some (envName (merged EnvKey [m1, m2, m3])))))"
  proof (cases x3)
    case (Some e)
    with L c0 r3 show ?thesis
      by simp
  next
    case None
    show ?thesis
    proof (cases x4)
      case (Some e)
      with L None r3 r4 d0 show ?thesis
        by (simp add: F_def)
    next
      case n4: None
      with L None r3 r4 fin show ?thesis
        by (simp add: F_def del: merged.simps cong: option.case_cong)
    qed
  qed
  then show ?thesis
    unfolding p_def E_def .
qed

lemma accepted_empty: "accepted EnvKey []"
  by (simp add: accepted_def EnvKey_def)

lemma LoadEnv_empty_name:
  assumes "EnvKey \<notin> fst ` set env" and "\<forall>k \<in> fst ` set env. CHR ''='' \<notin> set k"
    and "LoadEnv fs path env = (None, env', opened)"
    and "lastValue EnvKey (map (\<lambda>f. fst (readFile fs f)) opened) = Some []"
  shows "map_of env' EnvKey =
           (if map_of (fst (readFile fs (opened ! 3))) EnvKey = None then Some DefaultEnv else Some [])"
proof -
  define names where "names = originalVarNames env"
  define p where "p = basePath path"
  have nmem: "EnvKey \<notin> set names"
    unfolding names_def using assms(1,2) by (rule originalVarNames_absent)
  obtain m1 x1 where r1: "readFile fs p = (m1, x1)"
    by (cases "readFile fs p")
  obtain m2 x2 where r2: "readFile fs (p @ ''.local'') = (m2, x2)"
    by (cases "readFile fs (p @ ''.local'')")
  define b where "b = setAll names m2 (setAll names m1 env)"
  define E where "E = fst (appEnv b)"
  define c0 where "c0 = snd (appEnv b)"
  obtain m3 x3 where r3: "readFile fs (p @ CHR ''.'' # E) = (m3, x3)"
    by (cases "readFile fs (p @ CHR ''.'' # E)")
  define c where "c = setAll names m3 c0"
  define e4 where "e4 = fst (appEnv c)"
  define d0 where "d0 = snd (appEnv c)"
  obtain m4 x4 where r4: "readFile fs (p @ CHR ''.'' # e4 @ ''.local'') = (m4, x4)"
    by (cases "readFile fs (p @ CHR ''.'' # e4 @ ''.local'')")
  have L: "x1 = None \<and> x2 = None \<and> x3 = None \<and> x4 = None \<and> env' = setAll names m4 d0 \<and>
      opened = [p, p @ ''.local'', p @ CHR ''.'' # E, p @ CHR ''.'' # e4 @ ''.local'']"
    using assms(3) r1 r2 r3 r4
    unfolding LoadEnv_unfold names_def [symmetric] p_def [symmetric]
    by (simp add: Let_def b_def [symmetric] E_def [symmetric] c0_def [symmetric] c_def [symmetric]
        e4_def [symmetric] d0_def [symmetric] split: option.splits)
  have d: "distinct (map fst m1)" "distinct (map fst m2)" "distinct (map fst m3)" "distinct (map fst m4)"
    using readFile_distinct [of fs p] readFile_distinct [of fs "p @ ''.local''"]
      readFile_distinct [of fs "p @ CHR ''.'' # E"]
      readFile_distinct [of fs "p @ CHR ''.'' # e4 @ ''.local''"] r1 r2 r3 r4
    by simp_all
  have "map_of env EnvKey = None"
    using assms(1) by (simp add: map_of_eq_None_iff)
  then have vb: "map_of b EnvKey = merged EnvKey [m1, m2]"
    unfolding b_def using nmem d by (intro merged_two)
  have vc0: "map_of c0 EnvKey = Some (envName (map_of b EnvKey))"
    by (simp add: c0_def appEnv_resolves)
  have vc: "map_of c EnvKey =
      (case map_of m3 EnvKey of
         Some v \<Rightarrow> if accepted EnvKey v then Some v else map_of c0 EnvKey
       | None \<Rightarrow> map_of c0 EnvKey)"
    unfolding c_def using nmem d(3) by (rule setAll_value)
  have vd0: "map_of d0 EnvKey = Some (envName (map_of c EnvKey))"
    by (simp add: d0_def appEnv_resolves)
  have ve: "map_of env' EnvKey =
      (case map_of m4 EnvKey of
         Some v \<Rightarrow> if accepted EnvKey v then Some v else map_of d0 EnvKey
       | None \<Rightarrow> map_of d0 EnvKey)"
    using L setAll_value [OF nmem d(4), of d0] by simp
  from assms(4) L r1 r2 r3 r4 have lv: "lastValue EnvKey [m1, m2, m3, m4] = Some []"
    by simp
  have m4: "fst (readFile fs (opened ! 3)) = m4"
    using L r4 by simp
  have ne: "envName v \<noteq> []" for v
    by (rule envName_nonempty)
  have n0: "envName (Some []) = DefaultEnv"
    by (simp add: envName_def)
  have n1: "envName (Some (envName v)) = envName v" for v
    using ne [of v] by (simp add: envName_def)
  show ?thesis
  proof (cases "map_of m4 EnvKey")
    case (Some v)
    with lv have "v = []" by simp
    with Some ve m4 show ?thesis
      by (simp add: accepted_empty)
  next
    case None
    note n4 = None
    have "envName (map_of c EnvKey) = DefaultEnv"
    proof (cases "map_of m3 EnvKey")
      case (Some v)
      with lv n4 have "v = []" by simp
      with Some vc show ?thesis
        by (simp add: accepted_empty n0)
    next
      case None
      note n3 = None
      have "envName (map_of b EnvKey) = DefaultEnv"
      proof (cases "map_of m2 EnvKey")
        case (Some v)
        with lv n4 n3 have "v = []" by simp
        with Some vb show ?thesis
          by (simp add: accepted_empty n0)
      next
        case None
        with lv n4 n3 have "map_of m1 EnvKey = Some []" by simp
        with None vb show ?thesis
          by (simp add: accepted_empty n0)
      qed
      with n3 vc vc0 show ?thesis
        by (simp add: n0 envName_def DefaultEnv_def)
    qed
    with n4 ve vd0 m4 show ?thesis
      by simp
  qed
qed

subsection \<open>Variables that were set before the call\<close>

text \<open>
  C1, as the code has it. A variable \<open>K\<close> that is in the process environment before
  \<^verbatim>\<open>LoadEnv\<close> is called has the same value when \<^verbatim>\<open>LoadEnv\<close> returns, with or without
  an error and whatever the layer files define, with one exception: \<^verbatim>\<open>APP_ENV\<close> set to
  the empty string. \<^verbatim>\<open>appEnv\<close> reads it with \<^verbatim>\<open>os.Getenv\<close>, takes the empty string for
  a variable that is not set and writes the default; so after a call that returns no
  error \<^verbatim>\<open>APP_ENV\<close> is \<^verbatim>\<open>dev\<close>.
\<close>

theorem LoadEnv_keeps_existing:
  assumes "map_of env K = Some v" and "LoadEnv fs path env = (err, env', opened)"
  shows "(K \<noteq> EnvKey \<or> v \<noteq> [] \<longrightarrow> map_of env' K = Some v) \<and>
         (K = EnvKey \<and> v = [] \<and> err = None \<longrightarrow> map_of env' K = Some DefaultEnv)"
proof (intro conjI impI)
  assume kv: "K \<noteq> EnvKey \<or> v \<noteq> []"
  define p where "p = (if length path \<noteq> 1 then [''.env''] else path) ! 0"
  have "K \<in> set (originalVarNames env) \<or> CHR ''='' \<in> set K"
    using originalVarNames_mem [of K env] map_of_Some_fst [OF assms(1)]
    by blast
  then have "map_of (fst (snd (loadLayers (originalVarNames env) fs (filesFn p) env []))) K = Some v"
    using assms(1) kv by (intro loadLayers_keeps [where p = p]) auto
  with assms(2) show "map_of env' K = Some v"
    by (simp add: LoadEnv_def Let_def p_def)
next
  assume "K = EnvKey \<and> v = [] \<and> err = None"
  with assms show "map_of env' K = Some DefaultEnv"
    using LoadEnv_default_written [of env fs path env' opened] by simp
qed

text \<open>
  The claim as the specification states it includes \<^verbatim>\<open>APP_ENV\<close> with an empty value.
  With no layer file at all, an \<^verbatim>\<open>APP_ENV\<close> that was empty before the call is \<^verbatim>\<open>dev\<close>
  after it.
\<close>

theorem LoadEnv_overwrites_empty_APP_ENV:
  "map_of [(''APP_ENV'', [] :: bytes)] ''APP_ENV'' = Some [] \<and>
   map_of (fst (snd (LoadEnv no_files [''.env''] [(''APP_ENV'', [] :: bytes)]))) ''APP_ENV'' = Some ''dev''"
  by code_simp

text \<open>
  An instance: \<^verbatim>\<open>AGE=18\<close> and an empty \<^verbatim>\<open>APP_ENV\<close> are set, and the base file holds
  \<^verbatim>\<open>AGE=21\<close>.
\<close>

theorem LoadEnv_keeps_existing_witness:
  "map_of [(''AGE'', ''18''), (''APP_ENV'', [] :: bytes)] ''AGE'' = Some ''18'' \<and>
   map_of (fst (snd (LoadEnv fs_age [''.env'']
      [(''AGE'', ''18''), (''APP_ENV'', [] :: bytes)]))) ''AGE'' = Some ''18'' \<and>
   map_of (fst (snd (LoadEnv fs_age [''.env'']
      [(''AGE'', ''18''), (''APP_ENV'', [] :: bytes)]))) ''APP_ENV'' = Some ''dev''"
proof -
  let ?fs = "fs_age"
  let ?env = "[(''AGE'', ''18''), (''APP_ENV'', [] :: bytes)]"
  obtain err env' opened where L: "LoadEnv ?fs [''.env''] ?env = (err, env', opened)"
    by (cases "LoadEnv ?fs [''.env''] ?env")
  have e: "fst (LoadEnv ?fs [''.env''] ?env) = None"
    by code_simp
  with L have err: "err = None" by simp
  have a: "map_of ?env ''AGE'' = Some ''18''" by simp
  have b: "map_of ?env EnvKey = Some []" by (simp add: EnvKey_def)
  from LoadEnv_keeps_existing [OF a L] have "map_of env' ''AGE'' = Some ''18''"
    by (simp add: EnvKey_def)
  moreover from LoadEnv_keeps_existing [OF b L] err have "map_of env' EnvKey = Some DefaultEnv"
    by simp
  ultimately show ?thesis
    using L by (simp add: EnvKey_def DefaultEnv_def)
qed

subsection \<open>Precedence among the layers\<close>

text \<open>
  C2, as the code has it. Let \<open>K\<close> be a name that is not in the process environment
  before the call, let \<^verbatim>\<open>LoadEnv\<close> return no error, and let \<open>v\<close> be the value that the
  last of the layers defining \<open>K\<close> gives it, the layers being the files read, in the
  order base, base\<^verbatim>\<open>.local\<close>, base\<^verbatim>\<open>.\<close>ENV, base\<^verbatim>\<open>.\<close>ENV\<^verbatim>\<open>.local\<close>. Let \<^verbatim>\<open>os.Setenv\<close> accept
  the pair (the name is not empty, the value has no NUL byte). Then \<open>K\<close> has the value
  \<open>v\<close> when \<^verbatim>\<open>LoadEnv\<close> returns, with one exception: \<^verbatim>\<open>APP_ENV\<close> given the empty
  string. That value is taken for no value the next time \<^verbatim>\<open>appEnv\<close> runs, so
  \<^verbatim>\<open>APP_ENV\<close> is \<^verbatim>\<open>dev\<close> on return; it stays empty only when it is the fourth layer
  that gives it, after which \<^verbatim>\<open>appEnv\<close> does not run again. The names in the
  environment are taken to be free of \<^verbatim>\<open>=\<close>, as they are in every list of
  \<^verbatim>\<open>name=value\<close> strings.
\<close>

theorem LoadEnv_last_layer_wins:
  assumes "K \<notin> fst ` set env" and "\<forall>k \<in> fst ` set env. CHR ''='' \<notin> set k"
    and "LoadEnv fs path env = (None, env', opened)"
    and "lastValue K (map (\<lambda>f. fst (readFile fs f)) opened) = Some v"
    and "accepted K v"
  shows "(K \<noteq> EnvKey \<or> v \<noteq> [] \<longrightarrow> map_of env' K = Some v) \<and>
         (K = EnvKey \<and> v = [] \<longrightarrow>
            map_of env' K =
              (if map_of (fst (readFile fs (opened ! 3))) K = None then Some DefaultEnv else Some [])) \<and>
         (\<exists>e3 e4. opened = [basePath path, basePath path @ ''.local'', basePath path @ ''.'' @ e3,
            basePath path @ ''.'' @ e4 @ ''.local''])"
proof (intro conjI impI)
  have n: "K \<notin> set (originalVarNames env)"
    using assms(1,2) by (rule originalVarNames_absent)
  assume "K \<noteq> EnvKey \<or> v \<noteq> []"
  with loadLayers_last_any [OF subset_refl n assms(3) [unfolded LoadEnv_loadLayers]]
  show "map_of env' K = Some v"
    using assms(4,5) by auto
next
  assume "K = EnvKey \<and> v = []"
  with assms show "map_of env' K =
      (if map_of (fst (readFile fs (opened ! 3))) K = None then Some DefaultEnv else Some [])"
    using LoadEnv_empty_name [of env fs path env' opened] by simp
next
  show "\<exists>e3 e4. opened = [basePath path, basePath path @ ''.local'', basePath path @ ''.'' @ e3,
           basePath path @ ''.'' @ e4 @ ''.local'']"
    using assms(3) by (rule LoadEnv_opened)
qed

text \<open>
  The claim as the specification states it fails in three cases. With \<^verbatim>\<open>APP_ENV=prod\<close>
  in the base file and \<^verbatim>\<open>APP_ENV=\<close> in the local file, the last layer that defines
  \<^verbatim>\<open>APP_ENV\<close> gives it the empty string, and \<^verbatim>\<open>appEnv\<close> then writes \<^verbatim>\<open>dev\<close> over it.
  With \<^verbatim>\<open>=a\<close> in the base file and \<^verbatim>\<open>=b\<close> in the local file, both layers define the
  empty name, which \<^verbatim>\<open>os.Setenv\<close> refuses. With \<^verbatim>\<open>X=ok\<close> in the base file and a value
  with a NUL byte in the local file, \<^verbatim>\<open>os.Setenv\<close> refuses the second value and \<^verbatim>\<open>X\<close>
  keeps the first.
\<close>

theorem LoadEnv_last_layer_counterexample:
  "fst (LoadEnv fs_empty_env [] []) = None \<and>
   lastValue ''APP_ENV'' (map (\<lambda>f. fst (readFile fs_empty_env f)) (snd (snd (LoadEnv fs_empty_env [] [])))) = Some [] \<and>
   map_of (fst (snd (LoadEnv fs_empty_env [] []))) ''APP_ENV'' = Some ''dev'' \<and>
   fst (LoadEnv fs_empty_key [] []) = None \<and>
   lastValue [] (map (\<lambda>f. fst (readFile fs_empty_key f)) (snd (snd (LoadEnv fs_empty_key [] [])))) = Some ''b'' \<and>
   map_of (fst (snd (LoadEnv fs_empty_key [] []))) [] = None \<and>
   fst (LoadEnv fs_nul [] []) = None \<and>
   lastValue ''X'' (map (\<lambda>f. fst (readFile fs_nul f)) (snd (snd (LoadEnv fs_nul [] []))))
     = Some [CHR ''a'', CHR 0x00, CHR ''b''] \<and>
   map_of (fst (snd (LoadEnv fs_nul [] []))) ''X'' = Some ''ok''"
  by code_simp

text \<open>
  Instances. \<^verbatim>\<open>X\<close> is defined by the base file, the local file and the file of the
  environment \<^verbatim>\<open>dev\<close>, and is not set beforehand: it has the value of the third.
  \<^verbatim>\<open>APP_ENV\<close> is given \<^verbatim>\<open>prod\<close> by the base file alone: it is \<^verbatim>\<open>prod\<close> on return.
  \<^verbatim>\<open>APP_ENV\<close> is given \<^verbatim>\<open>prod\<close> by the base file and the empty string by the local
  file: it is \<^verbatim>\<open>dev\<close> on return.
\<close>

theorem LoadEnv_last_layer_wins_witness:
  "fst (LoadEnv fs_layers [''.env''] [(''HOME'', ''/root'')]) = None \<and>
   lastValue ''X'' (map (\<lambda>f. fst (readFile fs_layers f))
      (snd (snd (LoadEnv fs_layers [''.env''] [(''HOME'', ''/root'')])))) = Some ''3'' \<and>
   map_of (fst (snd (LoadEnv fs_layers [''.env''] [(''HOME'', ''/root'')]))) ''X'' = Some ''3'' \<and>
   map_of (fst (snd (LoadEnv fs_prod [''.env''] [(''HOME'', ''/root'')]))) ''APP_ENV'' = Some ''prod'' \<and>
   map_of (fst (snd (LoadEnv fs_empty_env [''.env''] [(''HOME'', ''/root'')]))) ''APP_ENV'' = Some ''dev''"
proof -
  let ?env = "[(''HOME'', ''/root'')]"
  have b: "\<forall>k \<in> fst ` set ?env. CHR ''='' \<notin> set k"
    by simp
  have a1: "''X'' \<notin> fst ` set ?env"
    by simp
  obtain env1 opened1 where d1: "LoadEnv fs_layers [''.env''] ?env = (None, env1, opened1)"
    and o1: "opened1 = [''.env'', ''.env.local'', ''.env.dev'', ''.env.dev.local'']"
  proof -
    have "fst (LoadEnv fs_layers [''.env''] ?env) = None \<and>
        snd (snd (LoadEnv fs_layers [''.env''] ?env)) = [''.env'', ''.env.local'', ''.env.dev'', ''.env.dev.local'']"
      by code_simp
    then show ?thesis
      using that by (cases "LoadEnv fs_layers [''.env''] ?env") auto
  qed
  have e1: "lastValue ''X'' (map (\<lambda>f. fst (readFile fs_layers f)) opened1) = Some ''3''"
    unfolding o1 by code_simp
  have f1: "accepted ''X'' ''3''"
    by (simp add: accepted_def)
  from LoadEnv_last_layer_wins [OF a1 b d1 e1 f1]
  have 1: "map_of env1 ''X'' = Some ''3''"
    by (simp add: EnvKey_def)
  have a2: "EnvKey \<notin> fst ` set ?env"
    by (simp add: EnvKey_def)
  obtain env2 opened2 where d2: "LoadEnv fs_prod [''.env''] ?env = (None, env2, opened2)"
    and o2: "opened2 = [''.env'', ''.env.local'', ''.env.prod'', ''.env.prod.local'']"
  proof -
    have "fst (LoadEnv fs_prod [''.env''] ?env) = None \<and>
        snd (snd (LoadEnv fs_prod [''.env''] ?env)) = [''.env'', ''.env.local'', ''.env.prod'', ''.env.prod.local'']"
      by code_simp
    then show ?thesis
      using that by (cases "LoadEnv fs_prod [''.env''] ?env") auto
  qed
  have e2: "lastValue EnvKey (map (\<lambda>f. fst (readFile fs_prod f)) opened2) = Some ''prod''"
    unfolding o2 by code_simp
  have f2: "accepted EnvKey ''prod''"
    by (simp add: accepted_def EnvKey_def)
  from LoadEnv_last_layer_wins [OF a2 b d2 e2 f2]
  have 2: "map_of env2 EnvKey = Some ''prod''"
    by simp
  obtain env3 opened3 where d3: "LoadEnv fs_empty_env [''.env''] ?env = (None, env3, opened3)"
    and o3: "opened3 = [''.env'', ''.env.local'', ''.env.dev'', ''.env.dev.local'']"
  proof -
    have "fst (LoadEnv fs_empty_env [''.env''] ?env) = None \<and>
        snd (snd (LoadEnv fs_empty_env [''.env''] ?env)) = [''.env'', ''.env.local'', ''.env.dev'', ''.env.dev.local'']"
      by code_simp
    then show ?thesis
      using that by (cases "LoadEnv fs_empty_env [''.env''] ?env") auto
  qed
  have e3: "lastValue EnvKey (map (\<lambda>f. fst (readFile fs_empty_env f)) opened3) = Some []"
    unfolding o3 by code_simp
  have f3: "accepted EnvKey []"
    by (rule accepted_empty)
  have g3: "map_of (fst (readFile fs_empty_env (opened3 ! 3))) EnvKey = None"
    unfolding o3 by code_simp
  from LoadEnv_last_layer_wins [OF a2 b d3 e3 f3] g3
  have 3: "map_of env3 EnvKey = Some DefaultEnv"
    by simp
  from 1 2 3 d1 d2 d3 e1 show ?thesis
    by (simp add: EnvKey_def DefaultEnv_def)
qed

subsection \<open>A layer that fails\<close>

lemma filesFn_names:
  assumes "f \<in> set (filesFn p)"
  shows "fst ` set env \<subseteq> fst ` set (snd (f env))"
proof -
  have a: "fst ` set env \<subseteq> fst ` set (snd (appEnv env))"
    by (auto simp: appEnv_def Let_def Setenv_def dom_update)
  from assms consider "snd (f env) = env" | "snd (f env) = snd (appEnv env)"
    by (auto simp: filesFn_def split: prod.splits)
  then show ?thesis
    using a by cases simp_all
qed

text \<open>
  C3. Let the layers before some layer \<open>f\<close> of \<^verbatim>\<open>filesFn\<close> load without error and leave
  the environment \<open>env1\<close>, and let \<^verbatim>\<open>readFile\<close> fail with \<open>e\<close> on the file of \<open>f\<close>,
  whatever map \<open>m\<close> it had built by then. Then \<^verbatim>\<open>LoadEnv\<close> returns \<open>e\<close>; no later file
  is opened; the environment it leaves does not depend on \<open>m\<close>, and on every name but
  \<^verbatim>\<open>APP_ENV\<close> it is \<open>env1\<close>, so what the earlier layers wrote stays. (\<^verbatim>\<open>APP_ENV\<close> may
  have been given its default by \<^verbatim>\<open>appEnv\<close> when the name of the failing file was
  built; every name that was set in \<open>env1\<close> is still set.)
\<close>

theorem LoadEnv_error_aborts:
  assumes "filesFn (basePath path) = pre @ f # post"
    and "loadLayers (originalVarNames env) fs pre env [] = (None, env1, opened1)"
    and "f env1 = (fname, env2)"
    and "readFile fs fname = (m, Some e)"
  shows "LoadEnv fs path env = (Some e, env2, opened1 @ [fname]) \<and>
         (\<forall>K. K \<noteq> EnvKey \<longrightarrow> map_of env2 K = map_of env1 K) \<and>
         fst ` set env1 \<subseteq> fst ` set env2"
proof (intro conjI)
  show "LoadEnv fs path env = (Some e, env2, opened1 @ [fname])"
    unfolding LoadEnv_loadLayers assms(1) loadLayers_append
    using assms(2,3,4) by simp
  have f: "f \<in> set (filesFn (basePath path))"
    using assms(1) by simp
  then show "\<forall>K. K \<noteq> EnvKey \<longrightarrow> map_of env2 K = map_of env1 K"
    using filesFn_other [of f "basePath path" _ env1] assms(3) by auto
  show "fst ` set env1 \<subseteq> fst ` set env2"
    using filesFn_names [OF f, of env1] assms(3) by simp
qed

text \<open>
  An instance: the base file sets \<^verbatim>\<open>A\<close>; the local file sets \<^verbatim>\<open>B\<close> and then has a
  malformed key; the file of the environment would set \<^verbatim>\<open>C\<close>. The error of the local
  file is returned, \<^verbatim>\<open>A\<close> is set, \<^verbatim>\<open>B\<close> and \<^verbatim>\<open>C\<close> are not.
\<close>

theorem LoadEnv_error_aborts_witness:
  "readFile fs_malformed ''.env.local'' = ([(''B'', ''2'')], Some (UnexpectedCharacter (CHR ''!'') ''1BAD!=x'')) \<and>
   LoadEnv fs_malformed [''.env''] [] =
     (Some (UnexpectedCharacter (CHR ''!'') ''1BAD!=x''), [(''A'', ''1'')], [''.env'', ''.env.local''])"
proof -
  let ?f = "\<lambda>env :: environment. (''.env.local'', env)"
  let ?g = "\<lambda>env :: environment. (''.env'', env)"
  let ?h3 = "\<lambda>env :: environment. (let (e, env') = appEnv env in (''.env'' @ ''.'' @ e, env'))"
  let ?h4 = "\<lambda>env :: environment. (let (e, env') = appEnv env in (''.env'' @ ''.'' @ e @ ''.local'', env'))"
  have a: "filesFn (basePath [''.env'']) = [?g] @ ?f # [?h3, ?h4]"
    by (simp add: filesFn_def basePath_def)
  have b: "loadLayers (originalVarNames []) fs_malformed [?g] [] [] = (None, [(''A'', ''1'')], [''.env''])"
    by code_simp
  have c: "?f [(''A'', ''1'')] = (''.env.local'', [(''A'', ''1'')])"
    by simp
  have d: "readFile fs_malformed ''.env.local'' = ([(''B'', ''2'')], Some (UnexpectedCharacter (CHR ''!'') ''1BAD!=x''))"
    by code_simp
  from LoadEnv_error_aborts [OF a b c d] d show ?thesis
    by simp
qed

subsection \<open>Where a reference takes its value from\<close>

text \<open>
  C4. Let \<open>n\<close> be a name, a non-empty run of \<^verbatim>\<open>[A-Z0-9_]\<close>.
  \<^item> In the text given to \<^verbatim>\<open>expandVariables\<close>, a reference \<^verbatim>\<open>$\<close>\<open>n\<close> or
    \<^verbatim>\<open>${\<close>\<open>n\<close>\<^verbatim>\<open>}\<close> that no backslash escapes is replaced by \<open>index m n\<close>, the value of
    \<open>n\<close> in the map \<open>m\<close> it is given; the text \<open>pre\<close> before it (with no dollar sign)
    stays, the text after it is expanded in turn. (After \<^verbatim>\<open>$\<close>\<open>n\<close> the text must not go on
    with a character of a name or a closing brace, which the match would take in.)
  \<^item> The map is the one \<^verbatim>\<open>readFile\<close> has built from the statements before: a statement
    \<open>k\<close>\<^verbatim>\<open>=$\<close>\<open>n\<close> or \<open>k\<close>\<^verbatim>\<open>=${\<close>\<open>n\<close>\<^verbatim>\<open>}\<close>, unquoted or in double quotes, reached with the
    map \<open>out\<close>, stores \<open>index out n\<close> under \<open>k\<close>, and the loop goes on with the rest of the
    file. \<^verbatim>\<open>readFile\<close> starts from the empty map and is given the file system and a name
    only: neither the process environment nor the map of another file reaches it.
  \<^item> A name that is not in the map has the empty string for value; expansion has no
    error to return.
\<close>

theorem reference_reads_file_map:
  assumes "k \<noteq> []" and "\<forall>c \<in> set k. isKeyChar c" and "n \<noteq> []" and "\<forall>c \<in> set n. isNameChar c"
  shows
    "(CHR ''$'' \<notin> set pre \<and> (pre = [] \<or> last pre \<noteq> backslash) \<longrightarrow>
        (post = [] \<or> (\<not> isNameChar (hd post) \<and> hd post \<noteq> CHR ''}'') \<longrightarrow>
           expandVariables (pre @ ''$'' @ n @ post) m = pre @ index m n @ expandVariables post m) \<and>
        expandVariables (pre @ ''${'' @ n @ ''}'' @ post) m = pre @ index m n @ expandVariables post m) \<and>
     (rest = [] \<or> hd rest = CHR 0x0A \<longrightarrow>
        readFile_loop (k @ ''=$'' @ n @ rest) out = readFile_loop rest (AList.update k (index out n) out) \<and>
        readFile_loop (k @ ''=${'' @ n @ ''}'' @ rest) out = readFile_loop rest (AList.update k (index out n) out)) \<and>
     readFile_loop (k @ ''='' @ [prefixDoubleQuote] @ ''$'' @ n @ [prefixDoubleQuote] @ rest) out
        = readFile_loop rest (AList.update k (index out n) out) \<and>
     readFile_loop (k @ ''='' @ [prefixDoubleQuote] @ ''${'' @ n @ ''}'' @ [prefixDoubleQuote] @ rest) out
        = readFile_loop rest (AList.update k (index out n) out) \<and>
     (map_of out n = None \<longrightarrow> index out n = [])"
proof (intro conjI impI)
  assume p: "CHR ''$'' \<notin> set pre \<and> (pre = [] \<or> last pre \<noteq> backslash)"
  show "expandVariables (pre @ ''${'' @ n @ ''}'' @ post) m = pre @ index m n @ expandVariables post m"
    using expandVariables_plain [of pre "''${'' @ n @ ''}'' @ post" m] p
      expandVariables_braces [OF assms(3,4), of post m] by simp
  assume "post = [] \<or> (\<not> isNameChar (hd post) \<and> hd post \<noteq> CHR ''}'')"
  then show "expandVariables (pre @ ''$'' @ n @ post) m = pre @ index m n @ expandVariables post m"
    using expandVariables_plain [of pre "''$'' @ n @ post" m] p
      expandVariables_dollar [OF assms(3,4), of post m] by simp
next
  assume r: "rest = [] \<or> hd rest = CHR 0x0A"
  show "readFile_loop (k @ ''=$'' @ n @ rest) out = readFile_loop rest (AList.update k (index out n) out)"
    using assms r by (rule reference_unquoted(1))
  show "readFile_loop (k @ ''=${'' @ n @ ''}'' @ rest) out = readFile_loop rest (AList.update k (index out n) out)"
    using assms r by (rule reference_unquoted(2))
next
  show "readFile_loop (k @ ''='' @ [prefixDoubleQuote] @ ''$'' @ n @ [prefixDoubleQuote] @ rest) out
        = readFile_loop rest (AList.update k (index out n) out)"
    using assms by (rule reference_double_quoted(1))
  show "readFile_loop (k @ ''='' @ [prefixDoubleQuote] @ ''${'' @ n @ ''}'' @ [prefixDoubleQuote] @ rest) out
        = readFile_loop rest (AList.update k (index out n) out)"
    using assms by (rule reference_double_quoted(2))
next
  assume "map_of out n = None"
  then show "index out n = []"
    by (simp add: index_def)
qed

text \<open>
  Instances. A reference inside a text; a second statement that refers to the first; a
  reference to a name that only the process environment sets, and one to a name that
  only the base file sets, seen from the local file: both expand to nothing.
\<close>

theorem reference_reads_file_map_witness:
  "expandVariables ''say ${A} twice'' [(''A'', ''hello'')] = ''say hello twice'' \<and>
   expandVariables ''say $A twice'' [(''A'', ''hello'')] = ''say hello twice'' \<and>
   readFile_loop ''B=$A'' [(''A'', ''hello'')] = ([(''A'', ''hello''), (''B'', ''hello'')], None) \<and>
   readFile_loop ''B=$UNSET'' [(''A'', ''hello'')] = ([(''A'', ''hello''), (''B'', [])], None) \<and>
   map_of (fst (snd (LoadEnv fs_reference [''.env''] [(''HOME'', ''/root'')]))) ''B'' = Some [] \<and>
   map_of (fst (snd (LoadEnv fs_reference [''.env''] [(''HOME'', ''/root'')]))) ''C'' = Some [] \<and>
   map_of (fst (snd (LoadEnv fs_reference [''.env''] [(''HOME'', ''/root'')]))) ''D'' = Some ''1''"
proof -
  let ?m = "[(''A'', ''hello'')]"
  have k1: "''B'' \<noteq> []" and k2: "\<forall>c \<in> set ''B''. isKeyChar c"
    by (simp_all add: isKeyChar_def)
  have n1: "''A'' \<noteq> []" and n2: "\<forall>c \<in> set ''A''. isNameChar c"
    by (simp_all add: isNameChar_def)
  have u1: "''UNSET'' \<noteq> []" and u2: "\<forall>c \<in> set ''UNSET''. isNameChar c"
    by (simp_all add: isNameChar_def)
  have fin: "readFile_loop [] out = (out, None)" for out
    by (simp add: readFile_loop.simps [of "[]"] getStatementStart_Nil)
  have pre: "CHR ''$'' \<notin> set ''say '' \<and> (''say '' = [] \<or> last ''say '' \<noteq> backslash)"
    by (simp add: backslash_def)
  have post: "'' twice'' = [] \<or> (\<not> isNameChar (hd '' twice'') \<and> hd '' twice'' \<noteq> CHR ''}'')"
    by (simp add: isNameChar_def)
  have r: "([] :: bytes) = [] \<or> hd ([] :: bytes) = CHR 0x0A"
    by simp
  note t = reference_reads_file_map [OF k1 k2 n1 n2, of "''say ''" "'' twice''" ?m "[]" ?m]
  note t' = reference_reads_file_map [OF k1 k2 u1 u2, of "[]" "[]" "[]" "[]" ?m]
  have e: "expandVariables '' twice'' ?m = '' twice''"
    by code_simp
  have i: "index ?m ''A'' = ''hello''" "index ?m ''UNSET'' = []"
    by (simp_all add: index_def)
  from t pre have "expandVariables (''say '' @ ''${'' @ ''A'' @ ''}'' @ '' twice'') ?m
      = ''say '' @ index ?m ''A'' @ expandVariables '' twice'' ?m"
    by blast
  then have 1: "expandVariables ''say ${A} twice'' ?m = ''say hello twice''"
    by (simp add: e i del: expandVariables.simps)
  from t pre post have "expandVariables (''say '' @ ''$'' @ ''A'' @ '' twice'') ?m
      = ''say '' @ index ?m ''A'' @ expandVariables '' twice'' ?m"
    by blast
  then have 2: "expandVariables ''say $A twice'' ?m = ''say hello twice''"
    by (simp add: e i del: expandVariables.simps)
  from t r have "readFile_loop (''B'' @ ''=$'' @ ''A'' @ []) ?m
      = readFile_loop [] (AList.update ''B'' (index ?m ''A'') ?m)"
    by blast
  then have 3: "readFile_loop ''B=$A'' ?m = ([(''A'', ''hello''), (''B'', ''hello'')], None)"
    by (simp add: fin i)
  from t' r have "readFile_loop (''B'' @ ''=$'' @ ''UNSET'' @ []) ?m
      = readFile_loop [] (AList.update ''B'' (index ?m ''UNSET'') ?m)"
    by blast
  then have 4: "readFile_loop ''B=$UNSET'' ?m = ([(''A'', ''hello''), (''B'', [])], None)"
    by (simp add: fin i)
  have 5: "map_of (fst (snd (LoadEnv fs_reference [''.env''] [(''HOME'', ''/root'')]))) ''B'' = Some [] \<and>
   map_of (fst (snd (LoadEnv fs_reference [''.env''] [(''HOME'', ''/root'')]))) ''C'' = Some [] \<and>
   map_of (fst (snd (LoadEnv fs_reference [''.env''] [(''HOME'', ''/root'')]))) ''D'' = Some ''1''"
    by code_simp
  from 1 2 3 4 5 show ?thesis
    by blast
qed

subsection \<open>When the environment name is resolved\<close>

text \<open>
  C5, as the code has it. \<^verbatim>\<open>LoadEnv\<close> takes the snapshot of the names first, but the
  four paths are built by closures that run when their layer is reached: \<^verbatim>\<open>appEnv\<close>
  is called when the third path is built, after the base file and the local file have
  been parsed and merged, and again when the fourth is built, after the third file has
  been merged. Each time it returns what the process environment then holds for
  \<^verbatim>\<open>APP_ENV\<close>, or the default when it holds nothing or the empty string, and then it
  writes the default back. So, whatever \<^verbatim>\<open>LoadEnv\<close> returns:
  \<^item> when \<^verbatim>\<open>APP_ENV\<close> is in the process environment before the call, with the value
    \<open>e0\<close>, the files opened are the base file, base\<^verbatim>\<open>.local\<close>, base\<^verbatim>\<open>.\<close>\<open>n\<close> and
    base\<^verbatim>\<open>.\<close>\<open>n\<close>\<^verbatim>\<open>.local\<close>, in this order, up to the first that fails, where \<open>n\<close> is
    \<open>e0\<close>, or the default when \<open>e0\<close> is empty: no file changes the two names. Once the
    third layer is reached, \<^verbatim>\<open>APP_ENV\<close> has the value \<open>n\<close> on return;
  \<^item> when \<^verbatim>\<open>APP_ENV\<close> is not in the process environment before the call and the first
    two files are read without error, giving the maps \<open>m1\<close> and \<open>m2\<close>, the third file
    opened is base\<^verbatim>\<open>.\<close>\<open>n3\<close>, where \<open>n3\<close> is the value that the last of \<open>m1\<close>, \<open>m2\<close>
    defining \<^verbatim>\<open>APP_ENV\<close> with a value \<^verbatim>\<open>os.Setenv\<close> accepts gives it, or the default
    when there is no such value or it is empty. If the third file fails, it is the last
    opened and \<^verbatim>\<open>APP_ENV\<close> is \<open>n3\<close> on return. If it is read, giving \<open>m3\<close>, the fourth
    file opened is base\<^verbatim>\<open>.\<close>\<open>n4\<close>\<^verbatim>\<open>.local\<close>, where \<open>n4\<close> is resolved in the same way from
    \<open>m1\<close>, \<open>m2\<close>, \<open>m3\<close>; on return \<^verbatim>\<open>APP_ENV\<close> is \<open>n4\<close>, unless the fourth file is
    read and gives \<^verbatim>\<open>APP_ENV\<close> a value that \<^verbatim>\<open>os.Setenv\<close> accepts, which it then has.
  The names in the environment are taken to be free of \<^verbatim>\<open>=\<close>.
\<close>

theorem LoadEnv_environment_name:
  assumes "LoadEnv fs path env = (err, env', opened)"
  shows "(\<forall>e0. map_of env EnvKey = Some e0 \<longrightarrow>
            opened = take (length opened)
              [basePath path, basePath path @ ''.local'', basePath path @ ''.'' @ envName (Some e0),
               basePath path @ ''.'' @ envName (Some e0) @ ''.local''] \<and>
            (2 < length opened \<longrightarrow> map_of env' EnvKey = Some (envName (Some e0)))) \<and>
         (\<forall>m1 m2. EnvKey \<notin> fst ` set env \<and> (\<forall>k \<in> fst ` set env. CHR ''='' \<notin> set k) \<and>
            readFile fs (basePath path) = (m1, None) \<and>
            readFile fs (basePath path @ ''.local'') = (m2, None) \<longrightarrow>
            2 < length opened \<and>
            take 2 opened = [basePath path, basePath path @ ''.local''] \<and>
            opened ! 2 = basePath path @ ''.'' @ envName (merged EnvKey [m1, m2]) \<and>
            (case readFile fs (opened ! 2) of
               (m3, Some e) \<Rightarrow>
                 length opened = 3 \<and> map_of env' EnvKey = Some (envName (merged EnvKey [m1, m2]))
             | (m3, None) \<Rightarrow>
                 length opened = 4 \<and>
                 opened ! 3 = basePath path @ ''.'' @ envName (merged EnvKey [m1, m2, m3]) @ ''.local'' \<and>
                 map_of env' EnvKey =
                   (case readFile fs (opened ! 3) of
                      (m4, Some e) \<Rightarrow> Some (envName (merged EnvKey [m1, m2, m3]))
                    | (m4, None) \<Rightarrow>
                        (case merged EnvKey [m4] of
                           Some v \<Rightarrow> Some v
                         | None \<Rightarrow> Some (envName (merged EnvKey [m1, m2, m3]))))))"
proof (intro conjI allI impI)
  fix e0
  assume a: "map_of env EnvKey = Some e0"
  note t = LoadEnv_name_fixed [OF a assms]
  from t show "opened = take (length opened)
      [basePath path, basePath path @ ''.local'', basePath path @ ''.'' @ envName (Some e0),
       basePath path @ ''.'' @ envName (Some e0) @ ''.local'']" ..
  assume "2 < length opened"
  with t show "map_of env' EnvKey = Some (envName (Some e0))"
    by simp
next
  fix m1 m2
  assume a: "EnvKey \<notin> fst ` set env \<and> (\<forall>k \<in> fst ` set env. CHR ''='' \<notin> set k) \<and>
      readFile fs (basePath path) = (m1, None) \<and> readFile fs (basePath path @ ''.local'') = (m2, None)"
  then have a1: "EnvKey \<notin> fst ` set env" and a2: "\<forall>k \<in> fst ` set env. CHR ''='' \<notin> set k"
    and a3: "readFile fs (basePath path) = (m1, None)"
    and a4: "readFile fs (basePath path @ ''.local'') = (m2, None)"
    by simp_all
  note t = LoadEnv_name_lazy [OF a1 a2 a3 a4 assms]
  from t show "2 < length opened" ..
  from t show "take 2 opened = [basePath path, basePath path @ ''.local'']"
    by (elim conjE)
  from t show "opened ! 2 = basePath path @ ''.'' @ envName (merged EnvKey [m1, m2])"
    by (elim conjE)
  from t show "case readFile fs (opened ! 2) of
       (m3, Some e) \<Rightarrow>
         length opened = 3 \<and> map_of env' EnvKey = Some (envName (merged EnvKey [m1, m2]))
     | (m3, None) \<Rightarrow>
         length opened = 4 \<and>
         opened ! 3 = basePath path @ ''.'' @ envName (merged EnvKey [m1, m2, m3]) @ ''.local'' \<and>
         map_of env' EnvKey =
           (case readFile fs (opened ! 3) of
              (m4, Some e) \<Rightarrow> Some (envName (merged EnvKey [m1, m2, m3]))
            | (m4, None) \<Rightarrow>
                (case merged EnvKey [m4] of
                   Some v \<Rightarrow> Some v
                 | None \<Rightarrow> Some (envName (merged EnvKey [m1, m2, m3]))))"
    by (elim conjE)
qed

text \<open>
  The claim as the specification states it has the two names fixed before any file is
  parsed. From the same empty environment and the same path, the third and the fourth
  file are those of \<^verbatim>\<open>dev\<close> when there is no base file and those of \<^verbatim>\<open>prod\<close> when the
  base file holds \<^verbatim>\<open>APP_ENV=prod\<close>.
\<close>

theorem LoadEnv_name_counterexample:
  "snd (snd (LoadEnv no_files [''.env''] [])) = [''.env'', ''.env.local'', ''.env.dev'', ''.env.dev.local''] \<and>
   snd (snd (LoadEnv fs_prod [''.env''] [])) = [''.env'', ''.env.local'', ''.env.prod'', ''.env.prod.local''] \<and>
   map_of (fst (snd (LoadEnv fs_prod [''.env''] []))) ''X'' = Some ''1''"
  by code_simp

text \<open>
  Instances. With \<^verbatim>\<open>APP_ENV=test\<close> set beforehand the files of \<^verbatim>\<open>test\<close> are opened,
  whatever the base file says, and \<^verbatim>\<open>APP_ENV\<close> is \<^verbatim>\<open>test\<close> on return. With \<^verbatim>\<open>APP_ENV\<close>
  set to the empty string beforehand the files of \<^verbatim>\<open>dev\<close> are opened and \<^verbatim>\<open>APP_ENV\<close>
  is \<^verbatim>\<open>dev\<close> on return. With nothing set beforehand and \<^verbatim>\<open>APP_ENV=prod\<close> in the base
  file, the third and the fourth file are those of \<^verbatim>\<open>prod\<close> and \<^verbatim>\<open>APP_ENV\<close> is
  \<^verbatim>\<open>prod\<close> on return. With nothing set and no file, they are those of \<^verbatim>\<open>dev\<close>, and
  \<^verbatim>\<open>dev\<close> is written back. With \<^verbatim>\<open>APP_ENV=prod\<close> in the base file and \<^verbatim>\<open>APP_ENV=\<close> in
  the local file, they are those of \<^verbatim>\<open>dev\<close>.
\<close>

theorem LoadEnv_environment_name_witness:
  "snd (snd (LoadEnv fs_prod [''.env''] [(''APP_ENV'', ''test'')])) =
     [''.env'', ''.env.local'', ''.env.test'', ''.env.test.local''] \<and>
   map_of (fst (snd (LoadEnv fs_prod [''.env''] [(''APP_ENV'', ''test'')]))) ''APP_ENV'' = Some ''test'' \<and>
   snd (snd (LoadEnv no_files [''.env''] [(''APP_ENV'', [])])) =
     [''.env'', ''.env.local'', ''.env.dev'', ''.env.dev.local''] \<and>
   map_of (fst (snd (LoadEnv no_files [''.env''] [(''APP_ENV'', [])]))) ''APP_ENV'' = Some ''dev'' \<and>
   snd (snd (LoadEnv fs_prod [''.env''] [])) ! 2 = ''.env.prod'' \<and>
   snd (snd (LoadEnv fs_prod [''.env''] [])) ! 3 = ''.env.prod.local'' \<and>
   map_of (fst (snd (LoadEnv fs_prod [''.env''] []))) ''APP_ENV'' = Some ''prod'' \<and>
   snd (snd (LoadEnv no_files [''.env''] [])) ! 2 = ''.env.dev'' \<and>
   snd (snd (LoadEnv no_files [''.env''] [])) ! 3 = ''.env.dev.local'' \<and>
   map_of (fst (snd (LoadEnv no_files [''.env''] []))) ''APP_ENV'' = Some ''dev'' \<and>
   snd (snd (LoadEnv fs_empty_env [''.env''] [])) ! 2 = ''.env.dev'' \<and>
   snd (snd (LoadEnv fs_empty_env [''.env''] [])) ! 3 = ''.env.dev.local'' \<and>
   map_of (fst (snd (LoadEnv fs_empty_env [''.env''] []))) ''APP_ENV'' = Some ''dev''"
proof -
  have p: "basePath [''.env''] = ''.env''"
    by (simp add: basePath_def)
  have emp: "EnvKey \<notin> fst ` set ([] :: environment) \<and>
      (\<forall>k \<in> fst ` set ([] :: environment). CHR ''='' \<notin> set k)"
    by simp

  obtain err1 env1 opened1 where L1: "LoadEnv fs_prod [''.env''] [(''APP_ENV'', ''test'')] = (err1, env1, opened1)"
    by (metis prod_cases3)
  have "length (snd (snd (LoadEnv fs_prod [''.env''] [(''APP_ENV'', ''test'')]))) = 4"
    by code_simp
  then have len1: "length opened1 = 4"
    by (simp add: L1)
  have s1: "map_of [(''APP_ENV'', ''test'')] EnvKey = Some ''test''"
    by (simp add: EnvKey_def)
  have n1: "envName (Some ''test'') = ''test''"
    by (simp add: envName_def)
  from LoadEnv_environment_name [OF L1] s1
  have "opened1 = take (length opened1)
        [basePath [''.env''], basePath [''.env''] @ ''.local'',
         basePath [''.env''] @ ''.'' @ envName (Some ''test''),
         basePath [''.env''] @ ''.'' @ envName (Some ''test'') @ ''.local''] \<and>
      (2 < length opened1 \<longrightarrow> map_of env1 EnvKey = Some (envName (Some ''test'')))"
    by blast
  then have one: "opened1 = [''.env'', ''.env.local'', ''.env.test'', ''.env.test.local''] \<and>
      map_of env1 EnvKey = Some ''test''"
    unfolding len1 n1 p by simp

  obtain err2 env2 opened2 where L2: "LoadEnv no_files [''.env''] [(''APP_ENV'', [])] = (err2, env2, opened2)"
    by (metis prod_cases3)
  have "length (snd (snd (LoadEnv no_files [''.env''] [(''APP_ENV'', [])]))) = 4"
    by code_simp
  then have len2: "length opened2 = 4"
    by (simp add: L2)
  have s2: "map_of [(''APP_ENV'', [])] EnvKey = Some []"
    by (simp add: EnvKey_def)
  have n2: "envName (Some []) = ''dev''"
    by (simp add: envName_def DefaultEnv_def)
  from LoadEnv_environment_name [OF L2] s2
  have "opened2 = take (length opened2)
        [basePath [''.env''], basePath [''.env''] @ ''.local'',
         basePath [''.env''] @ ''.'' @ envName (Some []),
         basePath [''.env''] @ ''.'' @ envName (Some []) @ ''.local''] \<and>
      (2 < length opened2 \<longrightarrow> map_of env2 EnvKey = Some (envName (Some [])))"
    by blast
  then have two: "opened2 = [''.env'', ''.env.local'', ''.env.dev'', ''.env.dev.local''] \<and>
      map_of env2 EnvKey = Some ''dev''"
    unfolding len2 n2 p by simp

  obtain err3 env3 opened3 where L3: "LoadEnv fs_prod [''.env''] [] = (err3, env3, opened3)"
    by (metis prod_cases3)
  have r31: "readFile fs_prod (basePath [''.env'']) = ([(''APP_ENV'', ''prod'')], None)"
    by code_simp
  have r32: "readFile fs_prod (basePath [''.env''] @ ''.local'') = ([], None)"
    by code_simp
  have r33: "readFile fs_prod ''.env.prod'' = ([(''X'', ''1'')], None)"
    by code_simp
  have r34: "readFile fs_prod ''.env.prod.local'' = ([], None)"
    by code_simp
  have n31: "envName (merged EnvKey [[(''APP_ENV'', ''prod'')], []]) = ''prod''"
    by (simp add: envName_def EnvKey_def accepted_def)
  have n32: "envName (merged EnvKey [[(''APP_ENV'', ''prod'')], [], [(''X'', ''1'')]]) = ''prod''"
    by (simp add: envName_def EnvKey_def accepted_def)
  have n33: "merged EnvKey [[]] = None"
    by simp
  from emp r31 r32
  have pre3: "EnvKey \<notin> fst ` set ([] :: environment) \<and>
      (\<forall>k \<in> fst ` set ([] :: environment). CHR ''='' \<notin> set k) \<and>
      readFile fs_prod (basePath [''.env'']) = ([(''APP_ENV'', ''prod'')], None) \<and>
      readFile fs_prod (basePath [''.env''] @ ''.local'') = ([], None)"
    by simp
  from LoadEnv_environment_name [OF L3, THEN conjunct2, rule_format, of "[(''APP_ENV'', ''prod'')]" "[]", OF pre3]
  have t3: "opened3 ! 2 = basePath [''.env''] @ ''.'' @ envName (merged EnvKey [[(''APP_ENV'', ''prod'')], []]) \<and>
      (case readFile fs_prod (opened3 ! 2) of
         (m3, Some e) \<Rightarrow>
           length opened3 = 3 \<and>
           map_of env3 EnvKey = Some (envName (merged EnvKey [[(''APP_ENV'', ''prod'')], []]))
       | (m3, None) \<Rightarrow>
           length opened3 = 4 \<and>
           opened3 ! 3 = basePath [''.env''] @ ''.'' @
             envName (merged EnvKey [[(''APP_ENV'', ''prod'')], [], m3]) @ ''.local'' \<and>
           map_of env3 EnvKey =
             (case readFile fs_prod (opened3 ! 3) of
                (m4, Some e) \<Rightarrow> Some (envName (merged EnvKey [[(''APP_ENV'', ''prod'')], [], m3]))
              | (m4, None) \<Rightarrow>
                  (case merged EnvKey [m4] of
                     Some v \<Rightarrow> Some v
                   | None \<Rightarrow> Some (envName (merged EnvKey [[(''APP_ENV'', ''prod'')], [], m3])))))"
    by (elim conjE conjI)
  then have three: "opened3 ! 2 = ''.env.prod'' \<and> opened3 ! 3 = ''.env.prod.local'' \<and>
      map_of env3 EnvKey = Some ''prod''"
    by (elim conjE) (simp add: p n31 n32 n33 r33 r34 del: merged.simps)

  obtain err4 env4 opened4 where L4: "LoadEnv no_files [''.env''] [] = (err4, env4, opened4)"
    by (metis prod_cases3)
  have r4: "readFile no_files f = ([], None)" for f
    by (simp add: readFile_def no_files_def)
  have n41: "envName (merged EnvKey [[], []]) = ''dev''"
    by (simp add: envName_def DefaultEnv_def)
  have n42: "envName (merged EnvKey [[], [], []]) = ''dev''"
    by (simp add: envName_def DefaultEnv_def)
  from emp r4
  have pre4: "EnvKey \<notin> fst ` set ([] :: environment) \<and>
      (\<forall>k \<in> fst ` set ([] :: environment). CHR ''='' \<notin> set k) \<and>
      readFile no_files (basePath [''.env'']) = ([], None) \<and>
      readFile no_files (basePath [''.env''] @ ''.local'') = ([], None)"
    by simp
  from LoadEnv_environment_name [OF L4, THEN conjunct2, rule_format, of "[]" "[]", OF pre4]
  have t4: "opened4 ! 2 = basePath [''.env''] @ ''.'' @ envName (merged EnvKey [[], []]) \<and>
      (case readFile no_files (opened4 ! 2) of
         (m3, Some e) \<Rightarrow>
           length opened4 = 3 \<and> map_of env4 EnvKey = Some (envName (merged EnvKey [[], []]))
       | (m3, None) \<Rightarrow>
           length opened4 = 4 \<and>
           opened4 ! 3 = basePath [''.env''] @ ''.'' @ envName (merged EnvKey [[], [], m3]) @ ''.local'' \<and>
           map_of env4 EnvKey =
             (case readFile no_files (opened4 ! 3) of
                (m4, Some e) \<Rightarrow> Some (envName (merged EnvKey [[], [], m3]))
              | (m4, None) \<Rightarrow>
                  (case merged EnvKey [m4] of
                     Some v \<Rightarrow> Some v
                   | None \<Rightarrow> Some (envName (merged EnvKey [[], [], m3])))))"
    by (elim conjE conjI)
  then have four: "opened4 ! 2 = ''.env.dev'' \<and> opened4 ! 3 = ''.env.dev.local'' \<and>
      map_of env4 EnvKey = Some ''dev''"
    by (elim conjE) (simp add: p n41 n42 n33 r4 del: merged.simps)

  obtain err5 env5 opened5 where L5: "LoadEnv fs_empty_env [''.env''] [] = (err5, env5, opened5)"
    by (metis prod_cases3)
  have r51: "readFile fs_empty_env (basePath [''.env'']) = ([(''APP_ENV'', ''prod'')], None)"
    by code_simp
  have r52: "readFile fs_empty_env (basePath [''.env''] @ ''.local'') = ([(''APP_ENV'', [])], None)"
    by code_simp
  have r53: "readFile fs_empty_env ''.env.dev'' = ([], None)"
    by code_simp
  have r54: "readFile fs_empty_env ''.env.dev.local'' = ([], None)"
    by code_simp
  have n51: "envName (merged EnvKey [[(''APP_ENV'', ''prod'')], [(''APP_ENV'', [])]]) = ''dev''"
    by (simp add: envName_def EnvKey_def accepted_def DefaultEnv_def)
  have n52: "envName (merged EnvKey [[(''APP_ENV'', ''prod'')], [(''APP_ENV'', [])], []]) = ''dev''"
    by (simp add: envName_def EnvKey_def accepted_def DefaultEnv_def)
  from emp r51 r52
  have pre5: "EnvKey \<notin> fst ` set ([] :: environment) \<and>
      (\<forall>k \<in> fst ` set ([] :: environment). CHR ''='' \<notin> set k) \<and>
      readFile fs_empty_env (basePath [''.env'']) = ([(''APP_ENV'', ''prod'')], None) \<and>
      readFile fs_empty_env (basePath [''.env''] @ ''.local'') = ([(''APP_ENV'', [])], None)"
    by simp
  from LoadEnv_environment_name [OF L5, THEN conjunct2, rule_format, of "[(''APP_ENV'', ''prod'')]" "[(''APP_ENV'', [])]", OF pre5]
  have t5: "opened5 ! 2 = basePath [''.env''] @ ''.'' @
        envName (merged EnvKey [[(''APP_ENV'', ''prod'')], [(''APP_ENV'', [])]]) \<and>
      (case readFile fs_empty_env (opened5 ! 2) of
         (m3, Some e) \<Rightarrow>
           length opened5 = 3 \<and>
           map_of env5 EnvKey = Some (envName (merged EnvKey [[(''APP_ENV'', ''prod'')], [(''APP_ENV'', [])]]))
       | (m3, None) \<Rightarrow>
           length opened5 = 4 \<and>
           opened5 ! 3 = basePath [''.env''] @ ''.'' @
             envName (merged EnvKey [[(''APP_ENV'', ''prod'')], [(''APP_ENV'', [])], m3]) @ ''.local'' \<and>
           map_of env5 EnvKey =
             (case readFile fs_empty_env (opened5 ! 3) of
                (m4, Some e) \<Rightarrow>
                  Some (envName (merged EnvKey [[(''APP_ENV'', ''prod'')], [(''APP_ENV'', [])], m3]))
              | (m4, None) \<Rightarrow>
                  (case merged EnvKey [m4] of
                     Some v \<Rightarrow> Some v
                   | None \<Rightarrow>
                       Some (envName (merged EnvKey [[(''APP_ENV'', ''prod'')], [(''APP_ENV'', [])], m3])))))"
    by (elim conjE conjI)
  then have five: "opened5 ! 2 = ''.env.dev'' \<and> opened5 ! 3 = ''.env.dev.local'' \<and>
      map_of env5 EnvKey = Some ''dev''"
    by (elim conjE) (simp add: p n51 n52 n33 r53 r54 del: merged.simps)

  from one two three four five L1 L2 L3 L4 L5 show ?thesis
    by (simp add: EnvKey_def)
qed

subsection \<open>What the scanner skips\<close>

lemma unicode_IsSpace_cases:
  assumes "unicode_IsSpace r"
  shows "r \<in> {0x09, 0x0A, 0x0B, 0x0C, 0x0D, 0x20, 0x85, 0xA0, 0x1680,
               0x2000, 0x2001, 0x2002, 0x2003, 0x2004, 0x2005, 0x2006, 0x2007, 0x2008, 0x2009, 0x200A,
               0x2028, 0x2029, 0x202F, 0x205F, 0x3000}"
proof (cases "0x2000 \<le> r \<and> r \<le> 0x200A")
  case True
  then have "r = 0x2000 \<or> r = 0x2001 \<or> r = 0x2002 \<or> r = 0x2003 \<or> r = 0x2004 \<or> r = 0x2005 \<or>
      r = 0x2006 \<or> r = 0x2007 \<or> r = 0x2008 \<or> r = 0x2009 \<or> r = 0x200A"
    by arith
  then show ?thesis
    by blast
next
  case False
  with assms show ?thesis
    by (auto simp: unicode_IsSpace_def split: if_splits)
qed

lemma DecodeRune_space:
  assumes "unicode_IsSpace r"
  shows "DecodeRune (EncodeRune r @ s) = (r, length (EncodeRune r)) \<and> EncodeRune r \<noteq> []"
  using unicode_IsSpace_cases [OF assms]
  by (elim insertE emptyE)
     (simp_all add: EncodeRune_def DecodeRune.simps first_def RuneSelf_def Let_def)

lemma indexFunc_skip:
  assumes "s \<noteq> []" and "DecodeRune s = (r, wid)" and "f r \<noteq> truth"
  shows "indexFunc f truth s = map_option (\<lambda>i. wid + i) (indexFunc f truth (drop wid s))"
  using assms by (cases s) auto

lemma getStatementStart_skip:
  assumes "unicode_IsSpace r"
  shows "getStatementStart (EncodeRune r @ src) = getStatementStart src"
proof -
  let ?e = "EncodeRune r"
  from DecodeRune_space [OF assms, of src]
  have d: "DecodeRune (?e @ src) = (r, length ?e)" and ne: "?e @ src \<noteq> []"
    by simp_all
  have "indexOfNonSpaceChar (?e @ src) = map_option (\<lambda>i. length ?e + i) (indexOfNonSpaceChar src)"
    unfolding indexOfNonSpaceChar_def IndexFunc_def
    using indexFunc_skip [OF ne d, of "\<lambda>r. \<not> unicode_IsSpace r" True] assms by simp
  then show ?thesis
    by (simp add: getStatementStart.simps [of "?e @ src"] getStatementStart.simps [of src]
        split: option.splits)
qed

lemma getStatementStart_here:
  assumes "src \<noteq> []" and "\<not> unicode_IsSpace (fst (DecodeRune src))" and "src ! 0 \<noteq> charComment"
  shows "getStatementStart src = Some src"
proof -
  obtain c cs where s: "src = c # cs"
    using assms(1) by (cases src) auto
  have "indexOfNonSpaceChar src = Some 0"
    using assms(2) by (auto simp: indexOfNonSpaceChar_def IndexFunc_def s split: prod.splits)
  with assms(3) show ?thesis
    by (simp add: getStatementStart.simps [of src])
qed

text \<open>
  C6, as the code has it. \<^verbatim>\<open>getStatementStart\<close> looks for its first byte with
  \<^verbatim>\<open>indexOfNonSpaceChar\<close>, which decodes the bytes as UTF-8 and tests every rune with
  \<^verbatim>\<open>unicode.IsSpace\<close>, not with the fixed set \<^verbatim>\<open>isSpace\<close> of the package. So it skips
  every leading rune of the Unicode class White_Space: the seven of the fixed set, the
  newline, and U+1680, U+2000 to U+200A, U+2028, U+2029, U+202F, U+205F and U+3000. The
  first rune that is not of this class and is not the comment marker is where the
  next statement starts.
\<close>

theorem getStatementStart_skips_Unicode_whitespace:
  "(unicode_IsSpace r \<longrightarrow> getStatementStart (EncodeRune r @ src) = getStatementStart src) \<and>
   (src \<noteq> [] \<and> \<not> unicode_IsSpace (fst (DecodeRune src)) \<and> src ! 0 \<noteq> charComment \<longrightarrow>
      getStatementStart src = Some src) \<and>
   (isSpace r \<longrightarrow> unicode_IsSpace r) \<and>
   (unicode_IsSpace r \<and> \<not> isSpace r \<longrightarrow>
      r \<in> {0x0A, 0x1680, 0x2000, 0x2001, 0x2002, 0x2003, 0x2004, 0x2005, 0x2006, 0x2007, 0x2008,
            0x2009, 0x200A, 0x2028, 0x2029, 0x202F, 0x205F, 0x3000})"
proof (intro conjI impI)
  assume "unicode_IsSpace r"
  then show "getStatementStart (EncodeRune r @ src) = getStatementStart src"
    by (rule getStatementStart_skip)
next
  assume "src \<noteq> [] \<and> \<not> unicode_IsSpace (fst (DecodeRune src)) \<and> src ! 0 \<noteq> charComment"
  then show "getStatementStart src = Some src"
    using getStatementStart_here by blast
next
  assume "isSpace r"
  then show "unicode_IsSpace r"
    by (auto simp: isSpace_def unicode_IsSpace_def)
next
  assume "unicode_IsSpace r \<and> \<not> isSpace r"
  then show "r \<in> {0x0A, 0x1680, 0x2000, 0x2001, 0x2002, 0x2003, 0x2004, 0x2005, 0x2006, 0x2007, 0x2008,
            0x2009, 0x200A, 0x2028, 0x2029, 0x202F, 0x205F, 0x3000}"
    using unicode_IsSpace_cases [of r] by (auto simp: isSpace_def)
qed

text \<open>
  The claim as the specification states it has every byte outside the fixed set
  start a statement. A newline is outside the fixed set (\<^verbatim>\<open>isSpace\<close> is false of it) and
  is no comment marker, and it is skipped; so are the three bytes of U+2003, the em
  space.
\<close>

theorem getStatementStart_skips_newline:
  "\<not> isSpace 0x0A \<and> CHR 0x0A \<noteq> charComment \<and>
   getStatementStart (CHR 0x0A # ''A=1'') = Some ''A=1'' \<and>
   \<not> isSpace 0x2003 \<and>
   getStatementStart ([CHR 0xE2, CHR 0x80, CHR 0x83] @ ''A=1'') = Some ''A=1''"
  by code_simp

text \<open>
  Instances: a carriage return, a newline and an ideographic space (U+3000) before
  \<^verbatim>\<open>A=1\<close> are skipped one by one; \<^verbatim>\<open>A=1\<close> itself is where the statement starts.
\<close>

theorem getStatementStart_skips_Unicode_whitespace_witness:
  "getStatementStart ([CHR 0x0D, CHR 0x0A, CHR 0xE3, CHR 0x80, CHR 0x80] @ ''A=1'') = Some ''A=1''"
proof -
  note t = getStatementStart_skips_Unicode_whitespace
  have s: "unicode_IsSpace 0x0D" "unicode_IsSpace 0x0A" "unicode_IsSpace 0x3000"
    by (simp_all add: unicode_IsSpace_def)
  have e: "EncodeRune 0x0D = [CHR 0x0D]" "EncodeRune 0x0A = [CHR 0x0A]"
    "EncodeRune 0x3000 = [CHR 0xE3, CHR 0x80, CHR 0x80]"
    by (simp_all add: EncodeRune_def char_of_eq_iff)
  have h: "''A=1'' \<noteq> [] \<and> \<not> unicode_IsSpace (fst (DecodeRune ''A=1'')) \<and> ''A=1'' ! 0 \<noteq> charComment"
    by (simp add: DecodeRune_ascii unicode_IsSpace_def charComment_def)
  from t [of 0 "''A=1''"] h have 0: "getStatementStart ''A=1'' = Some ''A=1''"
    by blast
  from t [of "0x3000" "''A=1''"] s(3) have 1:
    "getStatementStart ([CHR 0xE3, CHR 0x80, CHR 0x80] @ ''A=1'') = getStatementStart ''A=1''"
    unfolding e by blast
  from t [of "0x0A" "[CHR 0xE3, CHR 0x80, CHR 0x80] @ ''A=1''"] s(2) have 2:
    "getStatementStart ([CHR 0x0A] @ [CHR 0xE3, CHR 0x80, CHR 0x80] @ ''A=1'')
       = getStatementStart ([CHR 0xE3, CHR 0x80, CHR 0x80] @ ''A=1'')"
    unfolding e by blast
  from t [of "0x0D" "[CHR 0x0A] @ [CHR 0xE3, CHR 0x80, CHR 0x80] @ ''A=1''"] s(1) have 3:
    "getStatementStart ([CHR 0x0D] @ [CHR 0x0A] @ [CHR 0xE3, CHR 0x80, CHR 0x80] @ ''A=1'')
       = getStatementStart ([CHR 0x0A] @ [CHR 0xE3, CHR 0x80, CHR 0x80] @ ''A=1'')"
    unfolding e by blast
  from 0 1 2 3 show ?thesis
    by simp
qed

subsection \<open>Escapes in a double-quoted value\<close>

lemma replaceEscapes_pair:
  "replaceEscapes (backslash # c # post) =
     (if c = CHR 0x0A then [backslash, c]
      else if c = CHR ''n'' then [CHR 0x0A]
      else if c = CHR ''r'' then [CHR 0x0D]
      else [backslash, c]) @ replaceEscapes post"
proof (cases "c = CHR 0x0A")
  case True
  have "replaceEscapes (CHR 0x0A # post) = CHR 0x0A # replaceEscapes post"
    by (rule replaceEscapes_plain) (simp add: backslash_def)
  with True show ?thesis
    by simp
next
  case False
  then show ?thesis
    by (simp add: TrimPrefix_def HasPrefix_def)
qed

text \<open>
  C7, as the code has it. \<^verbatim>\<open>expandEscapes\<close> turns the two bytes backslash, \<^verbatim>\<open>n\<close> into
  a newline and backslash, \<^verbatim>\<open>r\<close> into a carriage return. Of every other pair of a
  backslash and a character it keeps the character and drops the backslash (the
  second pass, \<^verbatim>\<open>unescapeCharsRegex\<close>), so \<^verbatim>\<open>\t\<close> becomes \<^verbatim>\<open>t\<close>; only before a dollar
  sign does the backslash stay, for \<^verbatim>\<open>expandVariables\<close> to see. Nothing is rejected.
  The text \<open>pre\<close> before the pair holds no backslash; the text after it is decoded in
  turn.
\<close>

theorem expandEscapes_pair:
  assumes "backslash \<notin> set pre"
  shows "expandEscapes (pre @ [backslash, c] @ post) =
           pre @
           (if c = CHR ''n'' then [CHR 0x0A]
            else if c = CHR ''r'' then [CHR 0x0D]
            else if c = CHR ''$'' then [backslash, c]
            else [c]) @ expandEscapes post"
proof -
  let ?R = "replaceEscapes post"
  have 1: "replaceEscapes (pre @ [backslash, c] @ post) = pre @ replaceEscapes (backslash # c # post)"
    using replaceEscapes_prefix [OF assms, of "backslash # c # post"] by simp
  have 2: "unescapeChars (pre @ s) = pre @ unescapeChars s" for s
    using assms by (rule unescapeChars_prefix)
  have 3: "unescapeChars (backslash # d # ?R) =
      (if d = CHR ''$'' then backslash # d # unescapeChars ?R else d # unescapeChars ?R)" for d
  proof (cases "d = CHR ''$''")
    case True
    have "unescapeChars (CHR ''$'' # ?R) = CHR ''$'' # unescapeChars ?R"
      by (rule unescapeChars_plain) (simp add: backslash_def)
    with True show ?thesis
      by simp
  next
    case False
    then show ?thesis
      by simp
  qed
  have 4: "unescapeChars (CHR 0x0A # ?R) = CHR 0x0A # unescapeChars ?R"
    "unescapeChars (CHR 0x0D # ?R) = CHR 0x0D # unescapeChars ?R"
    by (rule unescapeChars_plain, simp add: backslash_def)+
  show ?thesis
    unfolding expandEscapes_def 1 replaceEscapes_pair
    by (simp add: 2 3 4 del: unescapeChars.simps replaceEscapes.simps)
qed

text \<open>
  The claim as the specification states it has \<^verbatim>\<open>\t\<close> left as two bytes. The decoder
  gives the one byte \<^verbatim>\<open>t\<close>, and so does a file that holds \<^verbatim>\<open>K="a\tb"\<close>.
\<close>

theorem expandEscapes_drops_backslash:
  "expandEscapes [CHR 0x5C, CHR ''t''] = ''t'' \<and>
   readFile (\<lambda>f. Contents (''K='' @ [CHR 0x22] @ ''a'' @ [CHR 0x5C] @ ''tb'' @ [CHR 0x22])) ''.env''
     = ([(''K'', ''atb'')], None)"
  by code_simp

text \<open>Instances: the pairs with \<^verbatim>\<open>n\<close>, \<^verbatim>\<open>r\<close>, \<^verbatim>\<open>t\<close> and the dollar sign, between \<^verbatim>\<open>a\<close> and \<^verbatim>\<open>b\<close>.\<close>

theorem expandEscapes_pair_witness:
  "expandEscapes (''a'' @ [CHR 0x5C, CHR ''n''] @ ''b'') = [CHR ''a'', CHR 0x0A, CHR ''b''] \<and>
   expandEscapes (''a'' @ [CHR 0x5C, CHR ''r''] @ ''b'') = [CHR ''a'', CHR 0x0D, CHR ''b''] \<and>
   expandEscapes (''a'' @ [CHR 0x5C, CHR ''t''] @ ''b'') = ''atb'' \<and>
   expandEscapes (''a'' @ [CHR 0x5C, CHR ''$''] @ ''b'') = [CHR ''a'', CHR 0x5C, CHR ''$'', CHR ''b'']"
proof -
  have a: "backslash \<notin> set ''a''"
    by (simp add: backslash_def)
  have b: "expandEscapes ''b'' = ''b''"
    by code_simp
  note t = expandEscapes_pair [OF a, of _ "''b''", unfolded b]
  from t [of "CHR ''n''"] t [of "CHR ''r''"] t [of "CHR ''t''"] t [of "CHR ''$''"]
  show ?thesis
    by (simp add: backslash_def)
qed

subsection \<open>The keys the lexer returns\<close>

lemma DecodeRune_latin1_key: "DecodeRune [CHR 0xE9, CHR ''='', CHR ''1''] = (RuneError, 1)"
  by (simp add: DecodeRune.simps first_def RuneSelf_def Let_def)
lemma DecodeLastRune_latin1_key: "DecodeLastRune [CHR 0xE9] = (RuneError, 1)"
  by (simp add: DecodeLastRune_def DecodeRune.simps first_def RuneSelf_def UTFMax_def Let_def)
lemma locateKeyName_latin1_key: "locateKeyName [CHR 0xE9, CHR ''='', CHR ''1''] = Inr ([CHR 0xE9], ''1'')"
proof -
  have t: "TrimLeftFunc isSpace [CHR 0xE9, CHR ''='', CHR ''1''] = [CHR 0xE9, CHR ''='', CHR ''1'']"
    by (simp add: TrimLeftFunc_def DecodeRune_latin1_key isSpace_def RuneError_def)
  have h: "\<not> HasPrefix [CHR 0xE9, CHR ''='', CHR ''1''] exportPrefix"
    by (simp add: HasPrefix_def exportPrefix_def)
  have k: "keyLoop s [CHR 0xE9, CHR ''='', CHR ''1''] 0 = Inr (take 1 s, 2)" for s
    by (simp add: isSpace_def unicode_IsLetter_def Let_def)
  have r: "TrimRightFunc unicode_IsSpace [CHR 0xE9] = [CHR 0xE9]"
    by (simp add: TrimRightFunc_def lastIndexFunc.simps [of _ _ "[CHR 0xE9]"] DecodeLastRune_latin1_key unicode_IsSpace_def
        RuneError_def RuneSelf_def DecodeRune.simps first_def Let_def)
  have v: "TrimLeftFunc isSpace ''1'' = ''1''"
    by (simp add: TrimLeftFunc_def DecodeRune_ascii isSpace_def)
  show ?thesis
    by (simp add: locateKeyName_def t h r v Let_def isSpace_def unicode_IsLetter_def unicode_IsNumber_def)
qed

text \<open>
  C8 does not hold of the code. \<^verbatim>\<open>locateKeyName\<close> returns without error
  \<^item> the empty key, for a statement that begins with the separator and for one that
    has no separator at all (the loop ends with \<^verbatim>\<open>key\<close> and \<^verbatim>\<open>offset\<close> as they were
    initialised);
  \<^item> a key with a space inside, since the loop passes over every byte of \<^verbatim>\<open>isSpace\<close> and
    only the end of the key is trimmed;
  \<^item> a key with a byte that is a letter of Latin-1 but not of ASCII, since the loop
    tests \<^verbatim>\<open>unicode.IsLetter\<close> and \<^verbatim>\<open>unicode.IsNumber\<close> of the byte.

  \<^verbatim>\<open>readFile\<close> stores the value under such a key.
\<close>

theorem locateKeyName_returns_other_keys:
  "locateKeyName ''=x'' = Inr ([], ''x'') \<and>
   locateKeyName ''FOO'' = Inr ([], ''FOO'') \<and>
   locateKeyName ''A B=1'' = Inr (''A B'', ''1'') \<and>
   locateKeyName [CHR 0xE9, CHR ''='', CHR ''1''] = Inr ([CHR 0xE9], ''1'') \<and>
   readFile (\<lambda>f. Contents ''=x'') ''.env'' = ([([], ''x'')], None) \<and>
   readFile (\<lambda>f. Contents ''A B=1'') ''.env'' = ([(''A B'', ''1'')], None)"
proof -
  have "locateKeyName ''=x'' = Inr ([], ''x'') \<and>
      locateKeyName ''FOO'' = Inr ([], ''FOO'') \<and>
      locateKeyName ''A B=1'' = Inr (''A B'', ''1'')"
    by code_simp
  moreover have "readFile (\<lambda>f. Contents ''=x'') ''.env'' = ([([], ''x'')], None) \<and>
      readFile (\<lambda>f. Contents ''A B=1'') ''.env'' = ([(''A B'', ''1'')], None)"
    by code_simp
  ultimately show ?thesis
    using locateKeyName_latin1_key by blast
qed

subsection \<open>The two quoting styles\<close>

text \<open>
  C9. A file that holds the statement \<^verbatim>\<open>KEY="a\nb"\<close> (the two bytes backslash and
  \<^verbatim>\<open>n\<close> between double quotes) parses to \<^verbatim>\<open>KEY\<close> with the three-byte value \<^verbatim>\<open>a\<close>,
  newline, \<^verbatim>\<open>b\<close>. A file that holds \<^verbatim>\<open>KEY='a\nb'\<close> parses to \<^verbatim>\<open>KEY\<close> with the four
  bytes \<^verbatim>\<open>a\<close>, backslash, \<^verbatim>\<open>n\<close>, \<^verbatim>\<open>b\<close>, unchanged. Neither parse fails.
\<close>

theorem quoting_round_trip:
  "readFile (\<lambda>f. Contents (''KEY='' @ [CHR 0x22] @ ''a'' @ [CHR 0x5C] @ ''nb'' @ [CHR 0x22])) file
     = ([(''KEY'', [CHR ''a'', CHR 0x0A, CHR ''b''])], None)
   \<and> readFile (\<lambda>f. Contents (''KEY='' @ [CHR 0x27] @ ''a'' @ [CHR 0x5C] @ ''nb'' @ [CHR 0x27])) file
     = ([(''KEY'', [CHR ''a'', CHR 0x5C, CHR ''n'', CHR ''b''])], None)"
  by code_simp

end
